theory Spec2Isabelle
  imports Complex_Main "HOL-Library.Word" "HOL-Library.Monad_Syntax"
begin

section \<open>Common types\<close>

text \<open>
  \<^verbatim>\<open>size_t\<close> is a 64-bit unsigned integer: \<open>+\<close> wraps around, \<open><\<close> and \<open>\<le>\<close>
  compare the unsigned values.
\<close>

type_synonym size_t = "64 word"

datatype StreamTag = Finite | Infinite

text \<open>
  The ways in which a terminal operation does not deliver its value:
  a \<^verbatim>\<open>static_assert\<close> of the operator template fails (the program is rejected when the
  operator is instantiated, whatever the generator holds), an \<^verbatim>\<open>IllegalStreamOperation\<close>
  is thrown, or \<^verbatim>\<open>std::optional::value()\<close> is called on an empty optional.
\<close>

datatype error =
    StaticAssertion string
  | IllegalStreamOperation string
  | bad_optional_access

text \<open>
  A generator type is a C++ class with \<^verbatim>\<open>operator()\<close>, a copy constructor and a move
  constructor. The class templates of \<^verbatim>\<open>stream_utils.h\<close> take the parent generator's type
  as a template parameter; here they take the parent's three operations.

  \<^verbatim>\<open>operator()\<close> returns the optional value and the new state of the object. The outer
  \<open>option\<close> is \<open>None\<close> when the call has no result at all: it never returns, or it reads
  through an iterator that does not point at an element (undefined behaviour).
\<close>

type_synonym ('g, 'a) pull = "'g \<Rightarrow> ('a option \<times> 'g) option"

record ('g, 'a) generator_class =
  call :: "('g, 'a) pull"
  copy_ctor :: "'g \<Rightarrow> 'g"
  move_ctor :: "'g \<Rightarrow> 'g"

section \<open>stream\_utils.h: the generators\<close>

subsection \<open>InfiniteGenerator\<close>

text \<open>
  The wrapped callable is an object of type \<open>'c\<close> (its captured state); calling it
  returns a value and the callable's next state. Copying or moving the generator copies or
  moves the callable.
\<close>

record 'c InfiniteGenerator =
  value_generator :: 'c

definition InfiniteGenerator_call ::
  "('c \<Rightarrow> 'a \<times> 'c) \<Rightarrow> ('c InfiniteGenerator, 'a) pull" where
  "InfiniteGenerator_call f g =
     (case f (value_generator g) of (v, c') \<Rightarrow> Some (Some v, g\<lparr>value_generator := c'\<rparr>))"

definition InfiniteGenerator_class ::
  "('c \<Rightarrow> 'a \<times> 'c) \<Rightarrow> ('c InfiniteGenerator, 'a) generator_class" where
  "InfiniteGenerator_class f =
     \<lparr>call = InfiniteGenerator_call f,
      copy_ctor = (\<lambda>other. \<lparr>value_generator = value_generator other\<rparr>),
      move_ctor = (\<lambda>other. \<lparr>value_generator = value_generator other\<rparr>)\<rparr>"

subsection \<open>PackGenerator\<close>

text \<open>
  \<^verbatim>\<open>current_\<close> and \<^verbatim>\<open>end_\<close> are \<^verbatim>\<open>const_reverse_iterator\<close>s. A reverse iterator is held
  as the offset of its base iterator from \<^verbatim>\<open>begin()\<close>: \<^verbatim>\<open>crbegin()\<close> has base \<^verbatim>\<open>end()\<close>
  (offset \<open>size\<close>), \<^verbatim>\<open>crend()\<close> has base \<^verbatim>\<open>begin()\<close> (offset \<open>0\<close>), dereferencing reads
  the element before the base, \<^verbatim>\<open>++\<close> moves the base one element down, and \<^verbatim>\<open>==\<close>
  compares the bases. \<^verbatim>\<open>reverse_iterator(it)\<close> is the reverse iterator with base \<^verbatim>\<open>it\<close>.

  The defaulted copy constructor copies the three members: the iterators of the copy keep
  their offsets (they point into the buffer of the generator copied from, which holds the
  same elements as the copy's own \<^verbatim>\<open>container_\<close>; object lifetimes are not modelled).
\<close>

record 'a PackGenerator =
  pack_container :: "'a list"
  pack_current :: nat
  pack_end :: nat

definition PackGenerator_default :: "'a PackGenerator" where
  "PackGenerator_default = \<lparr>pack_container = [], pack_current = 0, pack_end = 0\<rparr>"

definition push_back :: "'a \<Rightarrow> 'a PackGenerator \<Rightarrow> 'a PackGenerator" where
  "push_back v g =
     (let c = pack_container g @ [v]
      in \<lparr>pack_container = c, pack_current = length c, pack_end = 0\<rparr>)"

definition PackGenerator_call :: "('a PackGenerator, 'a) pull" where
  "PackGenerator_call g =
     (if pack_current g = pack_end g then Some (None, g)
      else if 0 < pack_current g \<and> pack_current g \<le> length (pack_container g)
      then Some (Some (pack_container g ! (pack_current g - 1)),
                 g\<lparr>pack_current := pack_current g - 1\<rparr>)
      else None)"

definition PackGenerator_move :: "'a PackGenerator \<Rightarrow> 'a PackGenerator" where
  "PackGenerator_move other =
     \<lparr>pack_container = pack_container other,
      pack_current = 0,
      pack_end = length (pack_container other)\<rparr>"

definition PackGenerator_class :: "('a PackGenerator, 'a) generator_class" where
  "PackGenerator_class =
     \<lparr>call = PackGenerator_call,
      copy_ctor = (\<lambda>other. other),
      move_ctor = PackGenerator_move\<rparr>"

subsection \<open>ContainerGenerator\<close>

text \<open>
  \<^verbatim>\<open>current_\<close> and \<^verbatim>\<open>end_\<close> are \<^verbatim>\<open>const_iterator\<close>s into the generator's own
  \<^verbatim>\<open>container_\<close>, held as offsets from \<^verbatim>\<open>cbegin()\<close>. The container is the list of its
  elements in iteration order. Every constructor (from a container, copy, move) sets the
  iterators to \<^verbatim>\<open>cbegin()\<close> and \<^verbatim>\<open>cend()\<close> of the new object's container.
\<close>

record 'a ContainerGenerator =
  cont_container :: "'a list"
  cont_current :: nat
  cont_end :: nat

definition ContainerGenerator_ctor :: "'a list \<Rightarrow> 'a ContainerGenerator" where
  "ContainerGenerator_ctor c =
     \<lparr>cont_container = c, cont_current = 0, cont_end = length c\<rparr>"

definition ContainerGenerator_call :: "('a ContainerGenerator, 'a) pull" where
  "ContainerGenerator_call g =
     (if cont_current g = cont_end g then Some (None, g)
      else if cont_current g < length (cont_container g)
      then Some (Some (cont_container g ! cont_current g),
                 g\<lparr>cont_current := cont_current g + 1\<rparr>)
      else None)"

definition ContainerGenerator_class :: "('a ContainerGenerator, 'a) generator_class" where
  "ContainerGenerator_class =
     \<lparr>call = ContainerGenerator_call,
      copy_ctor = (\<lambda>other. ContainerGenerator_ctor (cont_container other)),
      move_ctor = (\<lambda>other. ContainerGenerator_ctor (cont_container other))\<rparr>"

subsection \<open>SkipGenerator\<close>

record 'p SkipGenerator =
  skip_parent_gen :: 'p
  amount_to_skip :: size_t
  skipped :: bool

definition SkipGenerator_ctor ::
  "('p, 'a) generator_class \<Rightarrow> 'p \<Rightarrow> size_t \<Rightarrow> 'p SkipGenerator" where
  "SkipGenerator_ctor P parent_gen amount =
     \<lparr>skip_parent_gen = copy_ctor P parent_gen, amount_to_skip = amount, skipped = False\<rparr>"

text \<open>
  \<^verbatim>\<open>while (i < amount_to_skip_ && (opt = parent_gen_())) ++i;\<close> from the counter \<open>i\<close> and
  the parent's state; it returns the final counter and parent state.
\<close>

partial_function (option) skip_loop ::
  "('p, 'a) pull \<Rightarrow> size_t \<Rightarrow> size_t \<Rightarrow> 'p \<Rightarrow> (size_t \<times> 'p) option" where
  "skip_loop parent amount i p =
     (if i < amount then
        parent p \<bind> (\<lambda>(opt, p').
          case opt of
            Some v \<Rightarrow> skip_loop parent amount (i + 1) p'
          | None \<Rightarrow> Some (i, p'))
      else Some (i, p))"

declare skip_loop.simps [code]

definition SkipGenerator_call :: "('p, 'a) pull \<Rightarrow> ('p SkipGenerator, 'a) pull" where
  "SkipGenerator_call parent g =
     (if \<not> skipped g then
        skip_loop parent (amount_to_skip g) 0 (skip_parent_gen g) \<bind> (\<lambda>(i, p).
          if i < amount_to_skip g
          then Some (None, g\<lparr>skip_parent_gen := p, skipped := True\<rparr>)
          else parent p \<bind> (\<lambda>(opt, p').
                 Some (opt, g\<lparr>skip_parent_gen := p', skipped := True\<rparr>)))
      else
        parent (skip_parent_gen g) \<bind> (\<lambda>(opt, p').
          Some (opt, g\<lparr>skip_parent_gen := p'\<rparr>)))"

definition SkipGenerator_class ::
  "('p, 'a) generator_class \<Rightarrow> ('p SkipGenerator, 'a) generator_class" where
  "SkipGenerator_class P =
     \<lparr>call = SkipGenerator_call (call P),
      copy_ctor = (\<lambda>other.
        \<lparr>skip_parent_gen = copy_ctor P (skip_parent_gen other),
         amount_to_skip = amount_to_skip other, skipped = skipped other\<rparr>),
      move_ctor = (\<lambda>other.
        \<lparr>skip_parent_gen = move_ctor P (skip_parent_gen other),
         amount_to_skip = amount_to_skip other, skipped = skipped other\<rparr>)\<rparr>"

subsection \<open>GetGenerator\<close>

record 'p GetGenerator =
  get_parent_gen :: 'p
  amount_to_get :: size_t
  amount_got :: size_t

definition GetGenerator_ctor ::
  "('p, 'a) generator_class \<Rightarrow> 'p \<Rightarrow> size_t \<Rightarrow> 'p GetGenerator" where
  "GetGenerator_ctor P parent_gen amount =
     \<lparr>get_parent_gen = copy_ctor P parent_gen, amount_to_get = amount, amount_got = 0\<rparr>"

definition GetGenerator_call :: "('p, 'a) pull \<Rightarrow> ('p GetGenerator, 'a) pull" where
  "GetGenerator_call parent g =
     (if amount_got g \<ge> amount_to_get g then Some (None, g)
      else
        parent (get_parent_gen g) \<bind> (\<lambda>(opt, p').
          Some (opt, g\<lparr>get_parent_gen := p', amount_got := amount_got g + 1\<rparr>)))"

definition GetGenerator_class ::
  "('p, 'a) generator_class \<Rightarrow> ('p GetGenerator, 'a) generator_class" where
  "GetGenerator_class P =
     \<lparr>call = GetGenerator_call (call P),
      copy_ctor = (\<lambda>other.
        \<lparr>get_parent_gen = copy_ctor P (get_parent_gen other),
         amount_to_get = amount_to_get other, amount_got = amount_got other\<rparr>),
      move_ctor = (\<lambda>other.
        \<lparr>get_parent_gen = move_ctor P (get_parent_gen other),
         amount_to_get = amount_to_get other, amount_got = amount_got other\<rparr>)\<rparr>"

subsection \<open>FilterGenerator\<close>

record ('p, 'a) FilterGenerator =
  filter_parent_gen :: 'p
  predicate :: "'a \<Rightarrow> bool"

definition FilterGenerator_ctor ::
  "('p, 'a) generator_class \<Rightarrow> 'p \<Rightarrow> ('a \<Rightarrow> bool) \<Rightarrow> ('p, 'a) FilterGenerator" where
  "FilterGenerator_ctor P parent_gen pred =
     \<lparr>filter_parent_gen = copy_ctor P parent_gen, predicate = pred\<rparr>"

text \<open>\<^verbatim>\<open>while ((opt = parent_gen_()) && !predicate_(opt.value()));\<close>\<close>

partial_function (option) filter_loop ::
  "('p, 'a) pull \<Rightarrow> ('a \<Rightarrow> bool) \<Rightarrow> 'p \<Rightarrow> ('a option \<times> 'p) option" where
  "filter_loop parent pred p =
     parent p \<bind> (\<lambda>(opt, p').
       case opt of
         Some v \<Rightarrow> if \<not> pred v then filter_loop parent pred p' else Some (opt, p')
       | None \<Rightarrow> Some (opt, p'))"

declare filter_loop.simps [code]

definition FilterGenerator_call ::
  "('p, 'a) pull \<Rightarrow> (('p, 'a) FilterGenerator, 'a) pull" where
  "FilterGenerator_call parent g =
     filter_loop parent (predicate g) (filter_parent_gen g) \<bind> (\<lambda>(opt, p').
       Some (opt, g\<lparr>filter_parent_gen := p'\<rparr>))"

definition FilterGenerator_class ::
  "('p, 'a) generator_class \<Rightarrow> (('p, 'a) FilterGenerator, 'a) generator_class" where
  "FilterGenerator_class P =
     \<lparr>call = FilterGenerator_call (call P),
      copy_ctor = (\<lambda>other.
        \<lparr>filter_parent_gen = copy_ctor P (filter_parent_gen other),
         predicate = predicate other\<rparr>),
      move_ctor = (\<lambda>other.
        \<lparr>filter_parent_gen = move_ctor P (filter_parent_gen other),
         predicate = predicate other\<rparr>)\<rparr>"

subsection \<open>GroupGenerator\<close>

record 'p GroupGenerator =
  group_parent_gen :: 'p
  group_size :: size_t

definition GroupGenerator_ctor ::
  "('p, 'a) generator_class \<Rightarrow> 'p \<Rightarrow> size_t \<Rightarrow> 'p GroupGenerator" where
  "GroupGenerator_ctor P parent_gen gsize =
     \<lparr>group_parent_gen = copy_ctor P parent_gen, group_size = gsize\<rparr>"

text \<open>
  The \<^verbatim>\<open>do { group.push_back(opt.value()); ++i; } while (i < group_size_ && (opt = parent_gen_()));\<close>
  loop, entered with the group built so far, the counter \<open>i\<close>, the value \<open>v\<close> held by
  \<^verbatim>\<open>opt\<close> and the parent's state.
\<close>

partial_function (option) group_loop ::
  "('p, 'a) pull \<Rightarrow> size_t \<Rightarrow> 'a list \<Rightarrow> size_t \<Rightarrow> 'a \<Rightarrow> 'p \<Rightarrow> ('a list \<times> 'p) option" where
  "group_loop parent gsize grp i v p =
     (if i + 1 < gsize then
        parent p \<bind> (\<lambda>(opt, p').
          case opt of
            Some v' \<Rightarrow> group_loop parent gsize (grp @ [v]) (i + 1) v' p'
          | None \<Rightarrow> Some (grp @ [v], p'))
      else Some (grp @ [v], p))"

declare group_loop.simps [code]

definition GroupGenerator_call :: "('p, 'a) pull \<Rightarrow> ('p GroupGenerator, 'a list) pull" where
  "GroupGenerator_call parent g =
     parent (group_parent_gen g) \<bind> (\<lambda>(opt, p).
       case opt of
         None \<Rightarrow> Some (None, g\<lparr>group_parent_gen := p\<rparr>)
       | Some v \<Rightarrow>
           group_loop parent (group_size g) [] 0 v p \<bind> (\<lambda>(grp, p').
             Some (Some grp, g\<lparr>group_parent_gen := p'\<rparr>)))"

definition GroupGenerator_class ::
  "('p, 'a) generator_class \<Rightarrow> ('p GroupGenerator, 'a list) generator_class" where
  "GroupGenerator_class P =
     \<lparr>call = GroupGenerator_call (call P),
      copy_ctor = (\<lambda>other.
        \<lparr>group_parent_gen = copy_ctor P (group_parent_gen other),
         group_size = group_size other\<rparr>),
      move_ctor = (\<lambda>other.
        \<lparr>group_parent_gen = move_ctor P (group_parent_gen other),
         group_size = group_size other\<rparr>)\<rparr>"

subsection \<open>MapGenerator\<close>

record ('p, 'a, 'b) MapGenerator =
  map_parent_gen :: 'p
  transform :: "'a \<Rightarrow> 'b"

definition MapGenerator_ctor ::
  "('p, 'a) generator_class \<Rightarrow> 'p \<Rightarrow> ('a \<Rightarrow> 'b) \<Rightarrow> ('p, 'a, 'b) MapGenerator" where
  "MapGenerator_ctor P parent_gen t =
     \<lparr>map_parent_gen = copy_ctor P parent_gen, transform = t\<rparr>"

definition MapGenerator_call ::
  "('p, 'a) pull \<Rightarrow> (('p, 'a, 'b) MapGenerator, 'b) pull" where
  "MapGenerator_call parent g =
     parent (map_parent_gen g) \<bind> (\<lambda>(opt, p').
       case opt of
         None \<Rightarrow> Some (None, g\<lparr>map_parent_gen := p'\<rparr>)
       | Some v \<Rightarrow> Some (Some (transform g v), g\<lparr>map_parent_gen := p'\<rparr>))"

definition MapGenerator_class ::
  "('p, 'a) generator_class \<Rightarrow> (('p, 'a, 'b) MapGenerator, 'b) generator_class" where
  "MapGenerator_class P =
     \<lparr>call = MapGenerator_call (call P),
      copy_ctor = (\<lambda>other.
        \<lparr>map_parent_gen = copy_ctor P (map_parent_gen other),
         transform = transform other\<rparr>),
      move_ctor = (\<lambda>other.
        \<lparr>map_parent_gen = move_ctor P (map_parent_gen other),
         transform = transform other\<rparr>)\<rparr>"

section \<open>stream.h: the Stream class\<close>

text \<open>
  \<^verbatim>\<open>Stream<StreamGenerator, Tag>\<close> has one data member, \<^verbatim>\<open>generator_\<close>. The template
  parameter \<^verbatim>\<open>Tag\<close> is held beside it. Operations on a \<^verbatim>\<open>Stream<StreamGenerator, Tag>\<close>
  take the operations \<open>P\<close> of \<^verbatim>\<open>StreamGenerator\<close>.
\<close>

record 'g Stream =
  generator :: 'g
  Tag :: StreamTag

definition is_finite :: "'g Stream \<Rightarrow> bool" where
  "is_finite s = (Tag s = Finite)"

subsection \<open>Constructors\<close>

definition Stream_value_generator :: "'c \<Rightarrow> 'c InfiniteGenerator Stream" where
  "Stream_value_generator c = \<lparr>generator = \<lparr>value_generator = c\<rparr>, Tag = Infinite\<rparr>"

text \<open>From the range \<^verbatim>\<open>[first, last)\<close>, whose elements are \<open>xs\<close>.\<close>

definition Stream_iterators :: "'a list \<Rightarrow> 'a ContainerGenerator Stream" where
  "Stream_iterators xs = \<lparr>generator = ContainerGenerator_ctor xs, Tag = Finite\<rparr>"

definition Stream_container :: "'a list \<Rightarrow> 'a ContainerGenerator Stream" where
  "Stream_container c = \<lparr>generator = ContainerGenerator_ctor c, Tag = Finite\<rparr>"

definition Stream_initializer_list :: "'a list \<Rightarrow> 'a ContainerGenerator Stream" where
  "Stream_initializer_list il = \<lparr>generator = ContainerGenerator_ctor il, Tag = Finite\<rparr>"

text \<open>
  \<^verbatim>\<open>Stream(T first, Args... args) : Stream(args...) { generator_.push_back(first); }\<close>,
  ending in \<^verbatim>\<open>Stream(T first) { generator_.push_back(first); }\<close> on a
  default-constructed generator.
\<close>

fun pack_generator :: "'a \<Rightarrow> 'a list \<Rightarrow> 'a PackGenerator" where
  "pack_generator first [] = push_back first PackGenerator_default"
| "pack_generator first (a # args) = push_back first (pack_generator a args)"

definition Stream_pack :: "'a \<Rightarrow> 'a list \<Rightarrow> 'a PackGenerator Stream" where
  "Stream_pack first args = \<lparr>generator = pack_generator first args, Tag = Finite\<rparr>"

text \<open>The private constructor \<^verbatim>\<open>Stream(StreamGen && generator, StreamTag unused)\<close>.\<close>

definition Stream_private :: "('g, 'a) generator_class \<Rightarrow> 'g \<Rightarrow> StreamTag \<Rightarrow> 'g Stream" where
  "Stream_private P gen tag = \<lparr>generator = move_ctor P gen, Tag = tag\<rparr>"

definition Stream_copy :: "('g, 'a) generator_class \<Rightarrow> 'g Stream \<Rightarrow> 'g Stream" where
  "Stream_copy P other = \<lparr>generator = copy_ctor P (generator other), Tag = Tag other\<rparr>"

definition Stream_move :: "('g, 'a) generator_class \<Rightarrow> 'g Stream \<Rightarrow> 'g Stream" where
  "Stream_move P other = \<lparr>generator = move_ctor P (generator other), Tag = Tag other\<rparr>"

subsection \<open>Non-terminal operations\<close>

definition Stream_skip ::
  "('g, 'a) generator_class \<Rightarrow> 'g Stream \<Rightarrow> size_t \<Rightarrow> 'g SkipGenerator Stream" where
  "Stream_skip P s amount =
     Stream_private (SkipGenerator_class P) (SkipGenerator_ctor P (generator s) amount) (Tag s)"

definition Stream_get ::
  "('g, 'a) generator_class \<Rightarrow> 'g Stream \<Rightarrow> size_t \<Rightarrow> 'g GetGenerator Stream" where
  "Stream_get P s amount =
     Stream_private (GetGenerator_class P) (GetGenerator_ctor P (generator s) amount) Finite"

definition Stream_filter ::
  "('g, 'a) generator_class \<Rightarrow> 'g Stream \<Rightarrow> ('a \<Rightarrow> bool) \<Rightarrow> ('g, 'a) FilterGenerator Stream" where
  "Stream_filter P s pred =
     Stream_private (FilterGenerator_class P) (FilterGenerator_ctor P (generator s) pred) (Tag s)"

definition Stream_group ::
  "('g, 'a) generator_class \<Rightarrow> 'g Stream \<Rightarrow> size_t \<Rightarrow> 'g GroupGenerator Stream" where
  "Stream_group P s gsize =
     Stream_private (GroupGenerator_class P) (GroupGenerator_ctor P (generator s) gsize) (Tag s)"

definition Stream_map ::
  "('g, 'a) generator_class \<Rightarrow> 'g Stream \<Rightarrow> ('a \<Rightarrow> 'b) \<Rightarrow> ('g, 'a, 'b) MapGenerator Stream" where
  "Stream_map P s t =
     Stream_private (MapGenerator_class P) (MapGenerator_ctor P (generator s) t) (Tag s)"

subsection \<open>Terminal operations\<close>

text \<open>
  A terminal operation is a non-const member function: it returns its outcome together
  with the Stream object as the call leaves it. It works on the local
  \<^verbatim>\<open>StreamGenerator gen(generator_)\<close>. The loops below return the local generator too.
\<close>

text \<open>
  \<^verbatim>\<open>print_to\<close>: the \<^verbatim>\<open>ostream\<close> is the text written so far, \<open>shw\<close> is \<^verbatim>\<open>operator<<\<close> of
  the value type.
\<close>

partial_function (option) print_to_loop ::
  "('g, 'a) pull \<Rightarrow> ('a \<Rightarrow> string) \<Rightarrow> string \<Rightarrow> string \<Rightarrow> 'g \<Rightarrow> (string \<times> 'g) option" where
  "print_to_loop gen shw delimiter os g =
     gen g \<bind> (\<lambda>(opt, g').
       case opt of
         Some v \<Rightarrow> print_to_loop gen shw delimiter (os @ delimiter @ shw v) g'
       | None \<Rightarrow> Some (os, g'))"

declare print_to_loop.simps [code]

definition Stream_print_to ::
  "('g, 'a) generator_class \<Rightarrow> ('a \<Rightarrow> string) \<Rightarrow> 'g Stream \<Rightarrow> string \<Rightarrow> string
     \<Rightarrow> ((error + string) \<times> 'g Stream) option" where
  "Stream_print_to P shw s os delimiter =
     (if Tag s \<noteq> Finite
      then Some (Inl (StaticAssertion
             ''Operation print_to cannot be performed on infinite stream.''), s)
      else
        call P (copy_ctor P (generator s)) \<bind> (\<lambda>(opt, g).
          case opt of
            Some v \<Rightarrow>
              print_to_loop (call P) shw delimiter (os @ shw v) g \<bind> (\<lambda>(os', g').
                Some (Inr os', s))
          | None \<Rightarrow> Some (Inr os, s)))"

text \<open>\<^verbatim>\<open>while (i <= operation_props.n && (opt = gen())) ++i;\<close>\<close>

partial_function (option) nth_loop ::
  "('g, 'a) pull \<Rightarrow> size_t \<Rightarrow> size_t \<Rightarrow> 'a option \<Rightarrow> 'g \<Rightarrow> (size_t \<times> 'a option \<times> 'g) option" where
  "nth_loop gen n i opt g =
     (if i \<le> n then
        gen g \<bind> (\<lambda>(opt', g').
          case opt' of
            Some v \<Rightarrow> nth_loop gen n (i + 1) opt' g'
          | None \<Rightarrow> Some (i, opt', g'))
      else Some (i, opt, g))"

declare nth_loop.simps [code]

definition Stream_nth ::
  "('g, 'a) generator_class \<Rightarrow> 'g Stream \<Rightarrow> size_t \<Rightarrow> ((error + 'a) \<times> 'g Stream) option" where
  "Stream_nth P s n =
     nth_loop (call P) n 0 None (copy_ctor P (generator s)) \<bind> (\<lambda>(i, opt, g).
       if i \<le> n
       then Some (Inl (IllegalStreamOperation
              ''Stream doesn't contain enough elements to perform operation 'nth'.''), s)
       else (case opt of
               Some v \<Rightarrow> Some (Inr v, s)
             | None \<Rightarrow> Some (Inl bad_optional_access, s)))"

text \<open>\<^verbatim>\<open>while (opt = gen()) result = operation_props.accumulator(result, opt.value());\<close>\<close>

partial_function (option) reduce_loop ::
  "('g, 'a) pull \<Rightarrow> ('u \<Rightarrow> 'a \<Rightarrow> 'u) \<Rightarrow> 'u \<Rightarrow> 'g \<Rightarrow> ('u \<times> 'g) option" where
  "reduce_loop gen accumulator result g =
     gen g \<bind> (\<lambda>(opt, g').
       case opt of
         Some v \<Rightarrow> reduce_loop gen accumulator (accumulator result v) g'
       | None \<Rightarrow> Some (result, g'))"

declare reduce_loop.simps [code]

definition Stream_reduce ::
  "('g, 'a) generator_class \<Rightarrow> 'g Stream \<Rightarrow> ('a \<Rightarrow> 'u) \<Rightarrow> ('u \<Rightarrow> 'a \<Rightarrow> 'u)
     \<Rightarrow> ((error + 'u) \<times> 'g Stream) option" where
  "Stream_reduce P s identity accumulator =
     (if Tag s \<noteq> Finite
      then Some (Inl (StaticAssertion
             ''Operation reduce cannot be performed on infinite stream.''), s)
      else
        call P (copy_ctor P (generator s)) \<bind> (\<lambda>(opt, g).
          case opt of
            None \<Rightarrow> Some (Inl (IllegalStreamOperation
                      ''Operation 'reduce' cannot be performed on empty stream.''), s)
          | Some v \<Rightarrow>
              reduce_loop (call P) accumulator (identity v) g \<bind> (\<lambda>(result, g').
                Some (Inr result, s))))"

text \<open>\<^verbatim>\<open>while (opt = gen()) vec.push_back(opt.value());\<close>\<close>

partial_function (option) to_vector_loop ::
  "('g, 'a) pull \<Rightarrow> 'a list \<Rightarrow> 'g \<Rightarrow> ('a list \<times> 'g) option" where
  "to_vector_loop gen vec g =
     gen g \<bind> (\<lambda>(opt, g').
       case opt of
         Some v \<Rightarrow> to_vector_loop gen (vec @ [v]) g'
       | None \<Rightarrow> Some (vec, g'))"

declare to_vector_loop.simps [code]

definition Stream_to_vector ::
  "('g, 'a) generator_class \<Rightarrow> 'g Stream \<Rightarrow> ((error + 'a list) \<times> 'g Stream) option" where
  "Stream_to_vector P s =
     (if Tag s \<noteq> Finite
      then Some (Inl (StaticAssertion
             ''Operation to_vector cannot be performed on infinite stream.''), s)
      else
        to_vector_loop (call P) [] (copy_ctor P (generator s)) \<bind> (\<lambda>(vec, g).
          Some (Inr vec, s)))"

text \<open>\<^verbatim>\<open>while (opt = gen()) stream_sum += opt.value();\<close>\<close>

partial_function (option) sum_loop ::
  "('g, 'a::plus) pull \<Rightarrow> 'a \<Rightarrow> 'g \<Rightarrow> ('a \<times> 'g) option" where
  "sum_loop gen stream_sum g =
     gen g \<bind> (\<lambda>(opt, g').
       case opt of
         Some v \<Rightarrow> sum_loop gen (stream_sum + v) g'
       | None \<Rightarrow> Some (stream_sum, g'))"

declare sum_loop.simps [code]

definition Stream_sum ::
  "('g, 'a::plus) generator_class \<Rightarrow> 'g Stream \<Rightarrow> ((error + 'a) \<times> 'g Stream) option" where
  "Stream_sum P s =
     (if Tag s \<noteq> Finite
      then Some (Inl (StaticAssertion
             ''Operation sum cannot be performed on infinite stream.''), s)
      else
        call P (copy_ctor P (generator s)) \<bind> (\<lambda>(opt, g).
          case opt of
            None \<Rightarrow> Some (Inl (IllegalStreamOperation
                      ''Operation 'sum' cannot be performed on empty stream.''), s)
          | Some v \<Rightarrow>
              sum_loop (call P) v g \<bind> (\<lambda>(stream_sum, g').
                Some (Inr stream_sum, s))))"

section \<open>Vocabulary of the properties\<close>

text \<open>
  \<open>yields gen g xs\<close>: called again and again from the state \<open>g\<close>, the generator returns
  the elements of \<open>xs\<close> in order, then end-of-sequence, and end-of-sequence on every later
  call. A generator type \<open>P\<close> is a finite generator with contents \<open>content\<close> when a copy of
  any of its objects \<open>g\<close> yields \<open>content g\<close>, and copying or moving an object keeps its
  contents. The remaining functions give the contents of the generators built by the
  non-terminal operations, \<open>pull_upto gen k g\<close> makes at most \<open>k\<close> calls and stops at the
  first end-of-sequence (it returns the values, the number of calls made and the last
  state), and \<open>gen_values f c n\<close> are the first \<open>n\<close> values of the callable \<open>f\<close> started in
  state \<open>c\<close>.
\<close>

coinductive yields :: "('g, 'a) pull \<Rightarrow> 'g \<Rightarrow> 'a list \<Rightarrow> bool" for gen where
  yields_end: "gen g = Some (None, g') \<Longrightarrow> yields gen g' [] \<Longrightarrow> yields gen g []"
| yields_value: "gen g = Some (Some x, g') \<Longrightarrow> yields gen g' xs \<Longrightarrow> yields gen g (x # xs)"

definition finite_generator :: "('g, 'a) generator_class \<Rightarrow> ('g \<Rightarrow> 'a list) \<Rightarrow> bool" where
  "finite_generator P content \<longleftrightarrow>
     (\<forall>g. yields (call P) (copy_ctor P g) (content g) \<and>
          content (copy_ctor P g) = content g \<and>
          content (move_ctor P g) = content g)"

definition skip_content :: "('p \<Rightarrow> 'a list) \<Rightarrow> 'p SkipGenerator \<Rightarrow> 'a list" where
  "skip_content content g =
     (if skipped g then content (skip_parent_gen g)
      else drop (unat (amount_to_skip g)) (content (skip_parent_gen g)))"

definition get_content :: "('p \<Rightarrow> 'a list) \<Rightarrow> 'p GetGenerator \<Rightarrow> 'a list" where
  "get_content content g =
     take (unat (amount_to_get g) - unat (amount_got g)) (content (get_parent_gen g))"

definition map_content :: "('p \<Rightarrow> 'a list) \<Rightarrow> ('p, 'a, 'b) MapGenerator \<Rightarrow> 'b list" where
  "map_content content g = map (transform g) (content (map_parent_gen g))"

definition filter_content ::
  "('p \<Rightarrow> 'a list) \<Rightarrow> ('p, 'a) FilterGenerator \<Rightarrow> 'a list" where
  "filter_content content g = filter (predicate g) (content (filter_parent_gen g))"

definition group_len :: "nat \<Rightarrow> nat" where
  "group_len n = max 1 n"

function group_list :: "nat \<Rightarrow> 'a list \<Rightarrow> 'a list list" where
  "group_list n xs =
     (if xs = [] then [] else take (group_len n) xs # group_list n (drop (group_len n) xs))"
  by pat_completeness auto
termination
  by (relation "measure (\<lambda>(n, xs). length xs)") (auto simp: group_len_def)

declare group_list.simps [simp del]

definition group_content :: "('p \<Rightarrow> 'a list) \<Rightarrow> 'p GroupGenerator \<Rightarrow> 'a list list" where
  "group_content content g = group_list (unat (group_size g)) (content (group_parent_gen g))"

fun pull_upto :: "('g, 'a) pull \<Rightarrow> nat \<Rightarrow> 'g \<Rightarrow> ('a list \<times> nat \<times> 'g) option" where
  "pull_upto gen 0 g = Some ([], 0, g)"
| "pull_upto gen (Suc k) g =
     gen g \<bind> (\<lambda>(opt, g').
       case opt of
         None \<Rightarrow> Some ([], 1, g')
       | Some v \<Rightarrow> pull_upto gen k g' \<bind> (\<lambda>(vs, c, g''). Some (v # vs, Suc c, g'')))"

fun gen_values :: "('c \<Rightarrow> 'a \<times> 'c) \<Rightarrow> 'c \<Rightarrow> nat \<Rightarrow> 'a list" where
  "gen_values f c 0 = []"
| "gen_values f c (Suc n) = (case f c of (v, c') \<Rightarrow> v # gen_values f c' n)"

definition get_infinite_content ::
  "('c \<Rightarrow> 'a \<times> 'c) \<Rightarrow> 'c InfiniteGenerator GetGenerator \<Rightarrow> 'a list" where
  "get_infinite_content f g =
     gen_values f (value_generator (get_parent_gen g))
       (unat (amount_to_get g) - unat (amount_got g))"

section \<open>Properties of the generators\<close>

lemma yields_NilD: "yields gen g [] \<Longrightarrow> \<exists>g'. gen g = Some (None, g') \<and> yields gen g' []"
  by (erule yields.cases) auto

lemma yields_ConsD:
  "yields gen g (x # xs) \<Longrightarrow> \<exists>g'. gen g = Some (Some x, g') \<and> yields gen g' xs"
  by (erule yields.cases) auto

lemma size_t_succ: "i < (n::size_t) \<Longrightarrow> unat (i + 1) = Suc (unat i)"
  by unat_arith

lemma to_vector_loop_yields:
  "yields gen g xs \<Longrightarrow> \<exists>g'. to_vector_loop gen vec g = Some (vec @ xs, g') \<and> yields gen g' []"
proof (induction xs arbitrary: g vec)
  case Nil
  from yields_NilD[OF Nil] obtain g' where "gen g = Some (None, g')" "yields gen g' []" by blast
  then show ?case by (subst to_vector_loop.simps) simp
next
  case (Cons x xs)
  from yields_ConsD[OF Cons.prems] obtain g' where g': "gen g = Some (Some x, g')" "yields gen g' xs" by blast
  from Cons.IH[OF g'(2), of "vec @ [x]"] g'(1) show ?case
    by (subst to_vector_loop.simps) simp
qed

lemma container_yields:
  "cont_current g \<le> length (cont_container g) \<Longrightarrow> cont_end g = length (cont_container g)
   \<Longrightarrow> xs = drop (cont_current g) (cont_container g)
   \<Longrightarrow> yields ContainerGenerator_call g xs"
proof (coinduction arbitrary: g xs)
  case yields
  show ?case
  proof (cases "cont_current g = cont_end g")
    case True
    with yields show ?thesis by (auto simp: ContainerGenerator_call_def)
  next
    case False
    with yields have lt: "cont_current g < length (cont_container g)" by simp
    show ?thesis
      apply (rule disjI2)
      apply (rule exI[of _ g], rule exI[of _ "cont_container g ! cont_current g"])
      apply (rule exI[of _ "g\<lparr>cont_current := cont_current g + 1\<rparr>"])
      apply (rule exI[of _ "drop (Suc (cont_current g)) (cont_container g)"])
      using yields False lt by (simp add: ContainerGenerator_call_def Cons_nth_drop_Suc)
  qed
qed

lemma yields_coinduct_list:
  assumes "R g xs"
    and nil: "\<And>g. R g [] \<Longrightarrow> \<exists>g'. gen g = Some (None, g') \<and> R g' []"
    and cons: "\<And>g x xs. R g (x # xs) \<Longrightarrow> \<exists>g'. gen g = Some (Some x, g') \<and> R g' xs"
  shows "yields gen g xs"
  using assms(1)
proof (coinduction arbitrary: g xs)
  case yields
  show ?case
  proof (cases xs)
    case Nil
    with yields nil[of g] show ?thesis by auto
  next
    case (Cons y ys)
    with yields cons[of g y ys] show ?thesis by auto
  qed
qed

lemma finite_generatorD:
  assumes "finite_generator P content"
  shows "yields (call P) (copy_ctor P g) (content g)"
    and "content (copy_ctor P g) = content g"
    and "content (move_ctor P g) = content g"
  using assms by (simp_all add: finite_generator_def)

lemma ContainerGenerator_finite_generator: "finite_generator ContainerGenerator_class cont_container"
  by (simp add: finite_generator_def ContainerGenerator_class_def ContainerGenerator_ctor_def
      container_yields)

lemma Stream_to_vector_yields:
  assumes "yields (call P) (copy_ctor P (generator s)) xs" and "Tag s = Finite"
  shows "Stream_to_vector P s = Some (Inr xs, s)"
proof -
  from to_vector_loop_yields[OF assms(1), of "[]"]
  obtain g' where "to_vector_loop (call P) [] (copy_ctor P (generator s)) = Some (xs, g')"
    by auto
  with assms(2) show ?thesis by (simp add: Stream_to_vector_def)
qed

lemma Stream_to_vector_finite:
  assumes "finite_generator P content" and "Tag s = Finite"
  shows "Stream_to_vector P s = Some (Inr (content (generator s)), s)"
  by (rule Stream_to_vector_yields[OF finite_generatorD(1)[OF assms(1)] assms(2)])

subsection \<open>skip\<close>

lemma skip_loop_yields:
  assumes "yields parent p xs" and "i \<le> amount"
  shows "\<exists>i' p'. skip_loop parent amount i p = Some (i', p') \<and>
           yields parent p' (drop (unat amount - unat i) xs) \<and>
           (i' < amount \<longleftrightarrow> length xs < unat amount - unat i)"
  using assms
proof (induction xs arbitrary: i p)
  case Nil
  show ?case
  proof (cases "i < amount")
    case True
    from yields_NilD[OF Nil(1)] obtain p' where "parent p = Some (None, p')" "yields parent p' []"
      by blast
    with True show ?thesis
      by (subst skip_loop.simps) (simp add: word_less_nat_alt)
  next
    case False
    with Nil show ?thesis
      by (subst skip_loop.simps) (simp add: word_less_nat_alt)
  qed
next
  case (Cons x xs)
  show ?case
  proof (cases "i < amount")
    case True
    from yields_ConsD[OF Cons.prems(1)] obtain p' where
      p': "parent p = Some (Some x, p')" "yields parent p' xs" by blast
    from True have le: "i + 1 \<le> amount" by (rule inc_le)
    have u: "unat (i + 1) = Suc (unat i)" using True by (rule size_t_succ)
    from True have lt: "unat i < unat amount" by (simp add: word_less_nat_alt)
    from lt have d: "unat amount - unat i = Suc (unat amount - Suc (unat i))" by simp
    from Cons.IH[OF p'(2) le] obtain i' p'' where
      r: "skip_loop parent amount (i + 1) p' = Some (i', p'')"
         "yields parent p'' (drop (unat amount - Suc (unat i)) xs)"
         "i' < amount \<longleftrightarrow> length xs < unat amount - Suc (unat i)"
      unfolding u by blast
    show ?thesis
      apply (subst skip_loop.simps)
      using True p'(1) r lt by (simp add: d)
  next
    case False
    with Cons.prems show ?thesis
      by (subst skip_loop.simps) (simp add: word_less_nat_alt)
  qed
qed

lemma SkipGenerator_yields:
  fixes parent :: "('p, 'a) pull" and g :: "'p SkipGenerator"
  assumes "yields parent (skip_parent_gen g) xs"
  shows "yields (SkipGenerator_call parent) g
           (if skipped g then xs else drop (unat (amount_to_skip g)) xs)"
proof -
  define R where "R g ys \<longleftrightarrow> (\<exists>xs. yields parent (skip_parent_gen g) xs \<and>
      ys = (if skipped g then xs else drop (unat (amount_to_skip g)) xs))"
    for g :: "'p SkipGenerator" and ys
  have step: "\<exists>g'. SkipGenerator_call parent g = Some (case ys of [] \<Rightarrow> None | y # _ \<Rightarrow> Some y, g')
        \<and> R g' (tl ys)" if "R g ys" for g ys
  proof -
    from that obtain xs where xs: "yields parent (skip_parent_gen g) xs"
      "ys = (if skipped g then xs else drop (unat (amount_to_skip g)) xs)"
      unfolding R_def by blast
    have deleg: "\<exists>g'. parent p \<bind> (\<lambda>(opt, p'). Some (opt, upd p'))
         = Some (case zs of [] \<Rightarrow> None | y # _ \<Rightarrow> Some y, g') \<and> R g' (tl zs)"
      if "yields parent p zs" and "\<And>p'. skipped (upd p')" and "\<And>p'. skip_parent_gen (upd p') = p'"
      for p zs and upd :: "'p \<Rightarrow> 'p SkipGenerator"
    proof (cases zs)
      case Nil
      from yields_NilD[OF that(1)[unfolded Nil]]
      obtain p' where "parent p = Some (None, p')" "yields parent p' []"
        by blast
      with Nil that(2,3) show ?thesis by (simp add: R_def)
    next
      case (Cons z zs')
      from yields_ConsD[OF that(1)[unfolded Cons]]
      obtain p' where "parent p = Some (Some z, p')" "yields parent p' zs'"
        by blast
      with Cons that(2,3) show ?thesis by (simp add: R_def)
    qed
    show ?thesis
    proof (cases "skipped g")
      case True
      from deleg[OF xs(1), of "\<lambda>p'. g\<lparr>skip_parent_gen := p'\<rparr>"] True xs(2) show ?thesis
        by (simp add: SkipGenerator_call_def)
    next
      case False
      from skip_loop_yields[OF xs(1), of 0 "amount_to_skip g"] obtain i' p' where
        r: "skip_loop parent (amount_to_skip g) 0 (skip_parent_gen g) = Some (i', p')"
           "yields parent p' (drop (unat (amount_to_skip g)) xs)"
           "i' < amount_to_skip g \<longleftrightarrow> length xs < unat (amount_to_skip g)"
        by auto
      show ?thesis
      proof (cases "i' < amount_to_skip g")
        case True
        with r(3) have "drop (unat (amount_to_skip g)) xs = []" by simp
        with True r False xs(2) show ?thesis
          by (simp add: SkipGenerator_call_def R_def)
      next
        case ge: False
        from deleg[OF r(2), of "\<lambda>p'. g\<lparr>skip_parent_gen := p', skipped := True\<rparr>"]
          ge r(1) False xs(2) show ?thesis
          by (simp add: SkipGenerator_call_def)
      qed
    qed
  qed
  have "R g (if skipped g then xs else drop (unat (amount_to_skip g)) xs)"
    unfolding R_def using assms by blast
  then show ?thesis
  proof (rule yields_coinduct_list)
    fix g assume "R g []"
    from step[OF this] show "\<exists>g'. SkipGenerator_call parent g = Some (None, g') \<and> R g' []"
      by simp
  next
    fix g x xs assume "R g (x # xs)"
    from step[OF this] show "\<exists>g'. SkipGenerator_call parent g = Some (Some x, g') \<and> R g' xs"
      by simp
  qed
qed

lemma SkipGenerator_yields_fields:
  "yields parent p xs \<Longrightarrow>
   yields (SkipGenerator_call parent) \<lparr>skip_parent_gen = p, amount_to_skip = a, skipped = b\<rparr>
     (if b then xs else drop (unat a) xs)"
  using SkipGenerator_yields[of parent "\<lparr>skip_parent_gen = p, amount_to_skip = a, skipped = b\<rparr>" xs]
  by (cases b) simp_all

lemma SkipGenerator_finite_generator:
  assumes "finite_generator P content"
  shows "finite_generator (SkipGenerator_class P) (skip_content content)"
  unfolding finite_generator_def
proof (intro allI conjI)
  fix g :: "'a SkipGenerator"
  show "yields (call (SkipGenerator_class P)) (copy_ctor (SkipGenerator_class P) g)
          (skip_content content g)"
    using SkipGenerator_yields_fields[OF finite_generatorD(1)[OF assms, of "skip_parent_gen g"]]
    by (simp add: SkipGenerator_class_def skip_content_def)
  show "skip_content content (copy_ctor (SkipGenerator_class P) g) = skip_content content g"
    by (simp add: SkipGenerator_class_def skip_content_def finite_generatorD(2)[OF assms])
  show "skip_content content (move_ctor (SkipGenerator_class P) g) = skip_content content g"
    by (simp add: SkipGenerator_class_def skip_content_def finite_generatorD(3)[OF assms])
qed

subsection \<open>get\<close>

lemma GetGenerator_yields:
  fixes parent :: "('p, 'a) pull" and g :: "'p GetGenerator"
  assumes "yields parent (get_parent_gen g) xs"
  shows "yields (GetGenerator_call parent) g
           (take (unat (amount_to_get g) - unat (amount_got g)) xs)"
proof -
  define R where "R g ys \<longleftrightarrow> (\<exists>xs. yields parent (get_parent_gen g) xs \<and>
      ys = take (unat (amount_to_get g) - unat (amount_got g)) xs)"
    for g :: "'p GetGenerator" and ys
  have step: "\<exists>g'. GetGenerator_call parent g = Some (case ys of [] \<Rightarrow> None | y # _ \<Rightarrow> Some y, g')
        \<and> R g' (tl ys)" if "R g ys" for g ys
  proof -
    from that obtain xs where xs: "yields parent (get_parent_gen g) xs"
      "ys = take (unat (amount_to_get g) - unat (amount_got g)) xs"
      unfolding R_def by blast
    show ?thesis
    proof (cases "amount_got g \<ge> amount_to_get g")
      case True
      then have "unat (amount_to_get g) - unat (amount_got g) = 0"
        by (simp add: word_le_nat_alt)
      with True xs show ?thesis
        by (auto simp: GetGenerator_call_def R_def)
    next
      case False
      then have lt: "amount_got g < amount_to_get g" by simp
      then have u: "unat (amount_got g + 1) = Suc (unat (amount_got g))" by (rule size_t_succ)
      from lt have d: "unat (amount_to_get g) - unat (amount_got g)
          = Suc (unat (amount_to_get g) - Suc (unat (amount_got g)))"
        by (simp add: word_less_nat_alt)
      show ?thesis
      proof (cases xs)
        case Nil
        from yields_NilD[OF xs(1)[unfolded Nil]]
        obtain p' where p': "parent (get_parent_gen g) = Some (None, p')" "yields parent p' []"
          by blast
        have "R (g\<lparr>get_parent_gen := p', amount_got := amount_got g + 1\<rparr>) []"
          unfolding R_def using p'(2) by (intro exI[of _ "[]"]) simp
        with Nil False xs(2) p'(1) show ?thesis
          by (simp add: GetGenerator_call_def)
      next
        case (Cons x xs')
        from yields_ConsD[OF xs(1)[unfolded Cons]]
        obtain p' where p': "parent (get_parent_gen g) = Some (Some x, p')" "yields parent p' xs'"
          by blast
        have "R (g\<lparr>get_parent_gen := p', amount_got := amount_got g + 1\<rparr>)
                (take (unat (amount_to_get g) - Suc (unat (amount_got g))) xs')"
          unfolding R_def using p'(2) u by auto
        with Cons False xs(2) p'(1) show ?thesis
          by (simp add: GetGenerator_call_def d)
      qed
    qed
  qed
  have "R g (take (unat (amount_to_get g) - unat (amount_got g)) xs)"
    unfolding R_def using assms by blast
  then show ?thesis
  proof (rule yields_coinduct_list)
    fix g assume "R g []"
    from step[OF this] show "\<exists>g'. GetGenerator_call parent g = Some (None, g') \<and> R g' []"
      by simp
  next
    fix g x xs assume "R g (x # xs)"
    from step[OF this] show "\<exists>g'. GetGenerator_call parent g = Some (Some x, g') \<and> R g' xs"
      by simp
  qed
qed

lemma GetGenerator_yields_fields:
  "yields parent p xs \<Longrightarrow>
   yields (GetGenerator_call parent) \<lparr>get_parent_gen = p, amount_to_get = a, amount_got = b\<rparr>
     (take (unat a - unat b) xs)"
  using GetGenerator_yields[of parent "\<lparr>get_parent_gen = p, amount_to_get = a, amount_got = b\<rparr>" xs]
  by simp

lemma GetGenerator_finite_generator:
  assumes "finite_generator P content"
  shows "finite_generator (GetGenerator_class P) (get_content content)"
  unfolding finite_generator_def
proof (intro allI conjI)
  fix g :: "'a GetGenerator"
  show "yields (call (GetGenerator_class P)) (copy_ctor (GetGenerator_class P) g)
          (get_content content g)"
    using GetGenerator_yields_fields[OF finite_generatorD(1)[OF assms, of "get_parent_gen g"]]
    by (simp add: GetGenerator_class_def get_content_def)
  show "get_content content (copy_ctor (GetGenerator_class P) g) = get_content content g"
    by (simp add: GetGenerator_class_def get_content_def finite_generatorD(2)[OF assms])
  show "get_content content (move_ctor (GetGenerator_class P) g) = get_content content g"
    by (simp add: GetGenerator_class_def get_content_def finite_generatorD(3)[OF assms])
qed

subsection \<open>map\<close>

lemma MapGenerator_yields:
  fixes parent :: "('p, 'a) pull" and g :: "('p, 'a, 'b) MapGenerator"
  assumes "yields parent (map_parent_gen g) xs"
  shows "yields (MapGenerator_call parent) g (map (transform g) xs)"
proof -
  define R where "R g' ys \<longleftrightarrow> (\<exists>xs. yields parent (map_parent_gen g') xs \<and>
      transform g' = transform g \<and> ys = map (transform g) xs)"
    for g' :: "('p, 'a, 'b) MapGenerator" and ys
  have "R g (map (transform g) xs)"
    unfolding R_def using assms by blast
  then show ?thesis
  proof (rule yields_coinduct_list)
    fix g' assume "R g' []"
    then have y: "yields parent (map_parent_gen g') []" by (auto simp: R_def)
    from \<open>R g' []\<close> have t: "transform g' = transform g" by (auto simp: R_def)
    from yields_NilD[OF y]
    obtain p' where "parent (map_parent_gen g') = Some (None, p')" "yields parent p' []"
      by blast
    with t show "\<exists>g''. MapGenerator_call parent g' = Some (None, g'') \<and> R g'' []"
      by (simp add: MapGenerator_call_def R_def)
  next
    fix g' y ys assume "R g' (y # ys)"
    then obtain x xs' where y: "yields parent (map_parent_gen g') (x # xs')"
      and t: "transform g' = transform g" and e: "y = transform g x" "ys = map (transform g) xs'"
      by (auto simp: R_def)
    from yields_ConsD[OF y]
    obtain p' where "parent (map_parent_gen g') = Some (Some x, p')" "yields parent p' xs'"
      by blast
    with t e show "\<exists>g''. MapGenerator_call parent g' = Some (Some y, g'') \<and> R g'' ys"
      by (auto simp: MapGenerator_call_def R_def)
  qed
qed

lemma MapGenerator_yields_fields:
  "yields parent p xs \<Longrightarrow>
   yields (MapGenerator_call parent) \<lparr>map_parent_gen = p, transform = t\<rparr> (map t xs)"
  using MapGenerator_yields[of parent "\<lparr>map_parent_gen = p, transform = t\<rparr>" xs]
  by simp

lemma MapGenerator_finite_generator:
  assumes "finite_generator P content"
  shows "finite_generator (MapGenerator_class P) (map_content content)"
  unfolding finite_generator_def
proof (intro allI conjI)
  fix g :: "('a, 'b, 'c) MapGenerator"
  show "yields (call (MapGenerator_class P)) (copy_ctor (MapGenerator_class P) g)
          (map_content content g)"
    using MapGenerator_yields_fields[OF finite_generatorD(1)[OF assms, of "map_parent_gen g"]]
    by (simp add: MapGenerator_class_def map_content_def)
  show "map_content content (copy_ctor (MapGenerator_class P) g) = map_content content g"
    by (simp add: MapGenerator_class_def map_content_def finite_generatorD(2)[OF assms])
  show "map_content content (move_ctor (MapGenerator_class P) g) = map_content content g"
    by (simp add: MapGenerator_class_def map_content_def finite_generatorD(3)[OF assms])
qed

subsection \<open>filter\<close>

lemma filter_loop_yields:
  assumes "yields parent p xs"
  shows "\<exists>p' rest. filter_loop parent pred p
             = Some (case filter pred xs of [] \<Rightarrow> None | y # _ \<Rightarrow> Some y, p') \<and>
           yields parent p' rest \<and> filter pred rest = tl (filter pred xs)"
  using assms
proof (induction xs arbitrary: p)
  case Nil
  from yields_NilD[OF Nil] obtain p' where "parent p = Some (None, p')" "yields parent p' []"
    by blast
  then show ?case
    by (subst filter_loop.simps) (auto intro: exI[of _ "[]"])
next
  case (Cons x xs)
  from yields_ConsD[OF Cons.prems] obtain p' where
    p': "parent p = Some (Some x, p')" "yields parent p' xs" by blast
  show ?case
  proof (cases "pred x")
    case True
    with p' show ?thesis
      by (subst filter_loop.simps) (auto intro: exI[of _ xs])
  next
    case False
    with Cons.IH[OF p'(2)] p'(1) show ?thesis
      by (subst filter_loop.simps) simp
  qed
qed

lemma FilterGenerator_yields:
  fixes parent :: "('p, 'a) pull" and g :: "('p, 'a) FilterGenerator"
  assumes "yields parent (filter_parent_gen g) xs"
  shows "yields (FilterGenerator_call parent) g (filter (predicate g) xs)"
proof -
  define R where "R g' ys \<longleftrightarrow> (\<exists>xs. yields parent (filter_parent_gen g') xs \<and>
      predicate g' = predicate g \<and> ys = filter (predicate g) xs)"
    for g' :: "('p, 'a) FilterGenerator" and ys
  have step: "\<exists>g''. FilterGenerator_call parent g'
          = Some (case ys of [] \<Rightarrow> None | y # _ \<Rightarrow> Some y, g'') \<and> R g'' (tl ys)"
    if "R g' ys" for g' ys
  proof -
    from that obtain xs where xs: "yields parent (filter_parent_gen g') xs"
      "predicate g' = predicate g" "ys = filter (predicate g) xs"
      unfolding R_def by blast
    from filter_loop_yields[OF xs(1), of "predicate g"] obtain p' rest where
      r: "filter_loop parent (predicate g) (filter_parent_gen g')
            = Some (case ys of [] \<Rightarrow> None | y # _ \<Rightarrow> Some y, p')"
         "yields parent p' rest" "filter (predicate g) rest = tl ys"
      unfolding xs(3) by blast
    have "R (g'\<lparr>filter_parent_gen := p'\<rparr>) (tl ys)"
      unfolding R_def using r(2,3) xs(2) by (intro exI[of _ rest]) simp
    with r(1) xs(2) show ?thesis
      by (simp add: FilterGenerator_call_def)
  qed
  have "R g (filter (predicate g) xs)"
    unfolding R_def using assms by blast
  then show ?thesis
  proof (rule yields_coinduct_list)
    fix g' assume "R g' []"
    from step[OF this]
    show "\<exists>g''. FilterGenerator_call parent g' = Some (None, g'') \<and> R g'' []"
      by simp
  next
    fix g' x xs assume "R g' (x # xs)"
    from step[OF this]
    show "\<exists>g''. FilterGenerator_call parent g' = Some (Some x, g'') \<and> R g'' xs"
      by simp
  qed
qed

lemma FilterGenerator_yields_fields:
  "yields parent p xs \<Longrightarrow>
   yields (FilterGenerator_call parent) \<lparr>filter_parent_gen = p, predicate = pred\<rparr>
     (filter pred xs)"
  using FilterGenerator_yields[of parent "\<lparr>filter_parent_gen = p, predicate = pred\<rparr>" xs]
  by simp

lemma FilterGenerator_finite_generator:
  assumes "finite_generator P content"
  shows "finite_generator (FilterGenerator_class P) (filter_content content)"
  unfolding finite_generator_def
proof (intro allI conjI)
  fix g :: "('a, 'b) FilterGenerator"
  show "yields (call (FilterGenerator_class P)) (copy_ctor (FilterGenerator_class P) g)
          (filter_content content g)"
    using FilterGenerator_yields_fields[OF finite_generatorD(1)[OF assms, of "filter_parent_gen g"]]
    by (simp add: FilterGenerator_class_def filter_content_def)
  show "filter_content content (copy_ctor (FilterGenerator_class P) g) = filter_content content g"
    by (simp add: FilterGenerator_class_def filter_content_def finite_generatorD(2)[OF assms])
  show "filter_content content (move_ctor (FilterGenerator_class P) g) = filter_content content g"
    by (simp add: FilterGenerator_class_def filter_content_def finite_generatorD(3)[OF assms])
qed

subsection \<open>group\<close>

lemma group_len_pos [simp]: "0 < group_len n"
  by (simp add: group_len_def)

lemma group_len_eq: "0 < n \<Longrightarrow> group_len n = n"
  by (simp add: group_len_def)

lemma group_len_le1: "n \<le> 1 \<Longrightarrow> group_len n = 1"
  by (simp add: group_len_def)

lemma group_loop_yields:
  assumes "yields parent p xs" and "unat i < group_len (unat gsize)"
  shows "\<exists>p'. group_loop parent gsize grp i v p
             = Some (grp @ v # take (group_len (unat gsize) - Suc (unat i)) xs, p') \<and>
           yields parent p' (drop (group_len (unat gsize) - Suc (unat i)) xs)"
  using assms
proof (induction xs arbitrary: i grp v p)
  case Nil
  show ?case
  proof (cases "i + 1 < gsize")
    case True
    from yields_NilD[OF Nil(1)] obtain p' where "parent p = Some (None, p')" "yields parent p' []"
      by blast
    with True show ?thesis
      by (subst group_loop.simps) simp
  next
    case False
    with Nil show ?thesis
      by (subst group_loop.simps) simp
  qed
next
  case (Cons x xs)
  show ?case
  proof (cases "i + 1 < gsize")
    case True
    then have "gsize \<noteq> 0" by auto
    then have m: "group_len (unat gsize) = unat gsize"
      by (simp add: unat_gt_0 group_len_eq)
    with Cons.prems(2) have lt: "i < gsize" by (simp add: word_less_nat_alt)
    then have u: "unat (i + 1) = Suc (unat i)" by (rule size_t_succ)
    from True have lt': "Suc (unat i) < unat gsize" by (simp add: word_less_nat_alt u)
    then have d: "unat gsize - Suc (unat i) = Suc (unat gsize - Suc (Suc (unat i)))" by simp
    from yields_ConsD[OF Cons.prems(1)] obtain p' where
      p': "parent p = Some (Some x, p')" "yields parent p' xs" by blast
    from lt' m have "unat (i + 1) < group_len (unat gsize)" by (simp add: u)
    from Cons.IH[OF p'(2) this, of "grp @ [v]" x] obtain p'' where
      "group_loop parent gsize (grp @ [v]) (i + 1) x p'
         = Some (grp @ v # x # take (unat gsize - Suc (Suc (unat i))) xs, p'')"
      "yields parent p'' (drop (unat gsize - Suc (Suc (unat i))) xs)"
      unfolding u m by auto
    with True p'(1) show ?thesis
      by (subst group_loop.simps) (simp add: m d)
  next
    case False
    have "group_len (unat gsize) - Suc (unat i) = 0"
    proof (cases "unat gsize \<le> 1")
      case True
      with Cons.prems(2) show ?thesis by (simp add: group_len_le1)
    next
      case gt: False
      then have m: "group_len (unat gsize) = unat gsize" by (simp add: group_len_eq)
      with Cons.prems(2) have lt: "i < gsize" by (simp add: word_less_nat_alt)
      then have u: "unat (i + 1) = Suc (unat i)" by (rule size_t_succ)
      from False show ?thesis by (simp add: word_less_nat_alt u m)
    qed
    with False show ?thesis
      by (subst group_loop.simps) (simp add: Cons.prems(1))
  qed
qed

lemma GroupGenerator_yields:
  fixes parent :: "('p, 'a) pull" and g :: "'p GroupGenerator"
  assumes "yields parent (group_parent_gen g) xs"
  shows "yields (GroupGenerator_call parent) g (group_list (unat (group_size g)) xs)"
proof -
  define n where "n = unat (group_size g)"
  define R where "R g' ys \<longleftrightarrow> (\<exists>xs. yields parent (group_parent_gen g') xs \<and>
      group_size g' = group_size g \<and> ys = group_list n xs)"
    for g' :: "'p GroupGenerator" and ys
  have "R g (group_list (unat (group_size g)) xs)"
    unfolding R_def n_def using assms by blast
  then show ?thesis
  proof (rule yields_coinduct_list)
    fix g' assume "R g' []"
    then obtain xs where xs: "yields parent (group_parent_gen g') xs"
      "group_size g' = group_size g" "group_list n xs = []"
      unfolding R_def by auto
    from xs(3) have "xs = []"
      by (subst (asm) group_list.simps) (simp split: if_splits)
    from yields_NilD[OF xs(1)[unfolded this]]
    obtain p' where p': "parent (group_parent_gen g') = Some (None, p')" "yields parent p' []"
      by blast
    have "R (g'\<lparr>group_parent_gen := p'\<rparr>) []"
      unfolding R_def using p'(2) xs(2)
      by (intro exI[of _ "[]"]) (simp add: group_list.simps)
    with p'(1) show "\<exists>g''. GroupGenerator_call parent g' = Some (None, g'') \<and> R g'' []"
      by (simp add: GroupGenerator_call_def)
  next
    fix g' y ys assume "R g' (y # ys)"
    then obtain xs where xs: "yields parent (group_parent_gen g') xs"
      "group_size g' = group_size g" "y # ys = group_list n xs"
      unfolding R_def by auto
    from xs(3) obtain v xs' where c: "xs = v # xs'"
      by (subst (asm) group_list.simps) (cases xs; simp)
    from xs(3) have y: "y = take (group_len n) xs" and ys: "ys = group_list n (drop (group_len n) xs)"
      by (subst (asm) group_list.simps; simp add: c)+
    from yields_ConsD[OF xs(1)[unfolded c]]
    obtain p' where p': "parent (group_parent_gen g') = Some (Some v, p')" "yields parent p' xs'"
      by blast
    from group_loop_yields[OF p'(2), of 0 "group_size g" "[]" v] obtain p'' where
      l: "group_loop parent (group_size g) [] 0 v p' = Some (v # take (group_len n - Suc 0) xs', p'')"
         "yields parent p'' (drop (group_len n - Suc 0) xs')"
      unfolding n_def by auto
    have t: "v # take (group_len n - Suc 0) xs' = y" and dr: "drop (group_len n - Suc 0) xs' = drop (group_len n) xs"
      unfolding y c using group_len_pos[of n] by (simp_all add: take_Cons' drop_Cons')
    have "R (g'\<lparr>group_parent_gen := p''\<rparr>) ys"
      unfolding R_def ys using l(2) xs(2) unfolding dr
      by (intro exI[of _ "drop (group_len n) xs"]) simp
    with p'(1) l(1) xs(2) t
    show "\<exists>g''. GroupGenerator_call parent g' = Some (Some y, g'') \<and> R g'' ys"
      by (simp add: GroupGenerator_call_def)
  qed
qed

lemma GroupGenerator_yields_fields:
  "yields parent p xs \<Longrightarrow>
   yields (GroupGenerator_call parent) \<lparr>group_parent_gen = p, group_size = n\<rparr>
     (group_list (unat n) xs)"
  using GroupGenerator_yields[of parent "\<lparr>group_parent_gen = p, group_size = n\<rparr>" xs]
  by simp

lemma GroupGenerator_finite_generator:
  assumes "finite_generator P content"
  shows "finite_generator (GroupGenerator_class P) (group_content content)"
  unfolding finite_generator_def
proof (intro allI conjI)
  fix g :: "'a GroupGenerator"
  show "yields (call (GroupGenerator_class P)) (copy_ctor (GroupGenerator_class P) g)
          (group_content content g)"
    using GroupGenerator_yields_fields[OF finite_generatorD(1)[OF assms, of "group_parent_gen g"]]
    by (simp add: GroupGenerator_class_def group_content_def)
  show "group_content content (copy_ctor (GroupGenerator_class P) g) = group_content content g"
    by (simp add: GroupGenerator_class_def group_content_def finite_generatorD(2)[OF assms])
  show "group_content content (move_ctor (GroupGenerator_class P) g) = group_content content g"
    by (simp add: GroupGenerator_class_def group_content_def finite_generatorD(3)[OF assms])
qed

subsection \<open>terminal loops on a generator that yields a list\<close>

lemma reduce_loop_yields:
  "yields gen g xs \<Longrightarrow> \<exists>g'. reduce_loop gen acc r g = Some (foldl acc r xs, g')"
proof (induction xs arbitrary: g r)
  case Nil
  from yields_NilD[OF Nil] obtain g' where "gen g = Some (None, g')" by blast
  then show ?case by (subst reduce_loop.simps) simp
next
  case (Cons x xs)
  from yields_ConsD[OF Cons.prems] obtain g' where
    g': "gen g = Some (Some x, g')" "yields gen g' xs" by blast
  from Cons.IH[OF g'(2), of "acc r x"] g'(1) show ?case
    by (subst reduce_loop.simps) simp
qed

lemma sum_loop_yields:
  "yields gen g xs \<Longrightarrow> \<exists>g'. sum_loop gen r g = Some (foldl (+) r xs, g')"
proof (induction xs arbitrary: g r)
  case Nil
  from yields_NilD[OF Nil] obtain g' where "gen g = Some (None, g')" by blast
  then show ?case by (subst sum_loop.simps) simp
next
  case (Cons x xs)
  from yields_ConsD[OF Cons.prems] obtain g' where
    g': "gen g = Some (Some x, g')" "yields gen g' xs" by blast
  from Cons.IH[OF g'(2), of "r + x"] g'(1) show ?case
    by (subst sum_loop.simps) simp
qed

lemma print_to_loop_yields:
  "yields gen g xs \<Longrightarrow>
   \<exists>g'. print_to_loop gen shw d os g = Some (foldl (\<lambda>os v. os @ d @ shw v) os xs, g')"
proof (induction xs arbitrary: g os)
  case Nil
  from yields_NilD[OF Nil] obtain g' where "gen g = Some (None, g')" by blast
  then show ?case by (subst print_to_loop.simps) simp
next
  case (Cons x xs)
  from yields_ConsD[OF Cons.prems] obtain g' where
    g': "gen g = Some (Some x, g')" "yields gen g' xs" by blast
  from Cons.IH[OF g'(2), of "os @ d @ shw x"] g'(1) show ?case
    by (subst print_to_loop.simps) simp
qed

lemma Stream_reduce_yields:
  assumes "yields (call P) (copy_ctor P (generator s)) xs" and "Tag s = Finite"
  shows "Stream_reduce P s idf acc =
     Some (case xs of
             [] \<Rightarrow> Inl (IllegalStreamOperation
                      ''Operation 'reduce' cannot be performed on empty stream.'')
           | x # xs' \<Rightarrow> Inr (foldl acc (idf x) xs'), s)"
proof (cases xs)
  case Nil
  from yields_NilD[OF assms(1)[unfolded Nil]]
  obtain g' where "call P (copy_ctor P (generator s)) = Some (None, g')" by blast
  with Nil assms(2) show ?thesis by (simp add: Stream_reduce_def)
next
  case (Cons x xs')
  from yields_ConsD[OF assms(1)[unfolded Cons]]
  obtain g' where g': "call P (copy_ctor P (generator s)) = Some (Some x, g')"
    "yields (call P) g' xs'" by blast
  from reduce_loop_yields[OF g'(2), of acc "idf x"] obtain g'' where
    "reduce_loop (call P) acc (idf x) g' = Some (foldl acc (idf x) xs', g'')" by blast
  with Cons assms(2) g'(1) show ?thesis by (simp add: Stream_reduce_def)
qed

lemma Stream_sum_yields:
  assumes "yields (call P) (copy_ctor P (generator s)) xs" and "Tag s = Finite"
  shows "Stream_sum P s =
     Some (case xs of
             [] \<Rightarrow> Inl (IllegalStreamOperation
                      ''Operation 'sum' cannot be performed on empty stream.'')
           | x # xs' \<Rightarrow> Inr (foldl (+) x xs'), s)"
proof (cases xs)
  case Nil
  from yields_NilD[OF assms(1)[unfolded Nil]]
  obtain g' where "call P (copy_ctor P (generator s)) = Some (None, g')" by blast
  with Nil assms(2) show ?thesis by (simp add: Stream_sum_def)
next
  case (Cons x xs')
  from yields_ConsD[OF assms(1)[unfolded Cons]]
  obtain g' where g': "call P (copy_ctor P (generator s)) = Some (Some x, g')"
    "yields (call P) g' xs'" by blast
  from sum_loop_yields[OF g'(2), of x] obtain g'' where
    "sum_loop (call P) x g' = Some (foldl (+) x xs', g'')" by blast
  with Cons assms(2) g'(1) show ?thesis by (simp add: Stream_sum_def)
qed

lemma Stream_print_to_yields:
  assumes "yields (call P) (copy_ctor P (generator s)) xs" and "Tag s = Finite"
  shows "Stream_print_to P shw s os d =
     Some (case xs of
             [] \<Rightarrow> Inr os
           | x # xs' \<Rightarrow> Inr (foldl (\<lambda>os v. os @ d @ shw v) (os @ shw x) xs'), s)"
proof (cases xs)
  case Nil
  from yields_NilD[OF assms(1)[unfolded Nil]]
  obtain g' where "call P (copy_ctor P (generator s)) = Some (None, g')" by blast
  with Nil assms(2) show ?thesis by (simp add: Stream_print_to_def)
next
  case (Cons x xs')
  from yields_ConsD[OF assms(1)[unfolded Cons]]
  obtain g' where g': "call P (copy_ctor P (generator s)) = Some (Some x, g')"
    "yields (call P) g' xs'" by blast
  from print_to_loop_yields[OF g'(2), of shw d "os @ shw x"] obtain g'' where
    "print_to_loop (call P) shw d (os @ shw x) g'
       = Some (foldl (\<lambda>os v. os @ d @ shw v) (os @ shw x) xs', g'')" by blast
  with Cons assms(2) g'(1) show ?thesis by (simp add: Stream_print_to_def)
qed

subsection \<open>nth\<close>

lemma pull_upto_bounds:
  "pull_upto gen k g = Some (vs, c, g') \<Longrightarrow>
   c \<le> k \<and> length vs \<le> c \<and> c \<le> Suc (length vs) \<and> (c = length vs \<longrightarrow> c = k)"
proof (induction k arbitrary: g vs c g')
  case 0
  then show ?case by simp
next
  case (Suc k)
  from Suc.prems obtain opt g1 where g1: "gen g = Some (opt, g1)"
    by (cases "gen g") auto
  show ?case
  proof (cases opt)
    case None
    with Suc.prems g1 show ?thesis by auto
  next
    case (Some v)
    with Suc.prems g1 obtain vs' c' where
      r: "pull_upto gen k g1 = Some (vs', c', g')" "vs = v # vs'" "c = Suc c'"
      by (cases "pull_upto gen k g1") auto
    from Suc.IH[OF r(1)] r(2,3) show ?thesis by auto
  qed
qed

lemma nth_loop_pull_upto:
  assumes "n \<noteq> - 1" and "unat i + k = Suc (unat n)"
  shows "nth_loop gen n i opt g =
     pull_upto gen k g \<bind> (\<lambda>(vs, c, g').
       Some (i + of_nat (length vs),
             if c = length vs then (if vs = [] then opt else Some (last vs)) else None, g'))"
  using assms(2)
proof (induction k arbitrary: i opt g)
  case 0
  then have "\<not> i \<le> n" by (simp add: word_le_nat_alt)
  then show ?case by (subst nth_loop.simps) simp
next
  case (Suc k)
  then have le: "i \<le> n" by (simp add: word_le_nat_alt)
  from assms(1) have "n < - 1" by (simp add: word_order.not_eq_extremum)
  with le have "i < - 1" by simp
  then have u: "unat (i + 1) = Suc (unat i)" by (rule size_t_succ)
  with Suc.prems have k: "unat (i + 1) + k = Suc (unat n)" by simp
  show ?case
  proof (cases "gen g")
    case None
    with le show ?thesis by (subst nth_loop.simps) simp
  next
    case (Some r)
    obtain o1 g1 where r: "r = (o1, g1)" by (cases r)
    show ?thesis
    proof (cases o1)
      case None
      with le Some r show ?thesis by (subst nth_loop.simps) simp
    next
      case v: (Some v)
      show ?thesis
        apply (subst nth_loop.simps)
        using le Some r v Suc.IH[OF k, of "Some v" g1]
        by (cases "pull_upto gen k g1") (auto simp: add.assoc)
    qed
  qed
qed

lemma Stream_nth_pull_upto:
  assumes "n \<noteq> - 1"
  shows "Stream_nth P s n =
     pull_upto (call P) (Suc (unat n)) (copy_ctor P (generator s)) \<bind> (\<lambda>(vs, c, g').
       Some (if length vs = Suc (unat n) then Inr (last vs)
             else Inl (IllegalStreamOperation
                    ''Stream doesn't contain enough elements to perform operation 'nth'.''), s))"
proof (cases "pull_upto (call P) (Suc (unat n)) (copy_ctor P (generator s))")
  case None
  then show ?thesis
    by (simp add: Stream_nth_def nth_loop_pull_upto[OF assms, of 0 "Suc (unat n)"])
next
  case (Some r)
  obtain vs c g' where r: "r = (vs, c, g')" by (cases r)
  from pull_upto_bounds[OF Some[unfolded r]]
  have b: "c \<le> Suc (unat n)" "length vs \<le> c" "c = length vs \<longrightarrow> c = Suc (unat n)"
    by simp_all
  from assms have "n < - 1" by (simp add: word_order.not_eq_extremum)
  moreover have "unat (- 1 :: size_t) = 2 ^ 64 - 1"
    by (simp add: unsigned_minus_1_eq_mask mask_eq_exp_minus_1)
  ultimately have "Suc (unat n) < 2 ^ 64"
    by (simp add: word_less_nat_alt)
  with b have "length vs < 2 ^ 64" by simp
  then have u: "unat (of_nat (length vs) :: size_t) = length vs"
    by (simp add: unat_of_nat)
  show ?thesis
  proof (cases "length vs = Suc (unat n)")
    case True
    with b have c: "c = length vs" by simp
    from True have ne: "vs \<noteq> []" by auto
    from True u have "\<not> (of_nat (length vs) :: size_t) \<le> n"
      by (simp add: word_le_nat_alt)
    with True c ne Some r show ?thesis
      by (simp add: Stream_nth_def nth_loop_pull_upto[OF assms, of 0 "Suc (unat n)"])
  next
    case False
    with b have "length vs \<le> unat n" by simp
    with u have "(of_nat (length vs) :: size_t) \<le> n"
      by (simp add: word_le_nat_alt)
    with False Some r show ?thesis
      by (simp add: Stream_nth_def nth_loop_pull_upto[OF assms, of 0 "Suc (unat n)"])
  qed
qed

lemma nth_loop_max_never_returns:
  assumes total: "\<And>g. \<exists>v g'. gen g = Some (Some v, g')"
  shows "nth_loop gen (- 1) i opt g = None"
proof -
  have "gen' = gen \<longrightarrow> n = - 1 \<longrightarrow> False" if "nth_loop gen' n i opt g = Some y" for gen' n i opt g y
    using that
  proof (rule nth_loop.raw_induct[rotated 1,
        where P = "\<lambda>gen' n i opt g y. gen' = gen \<longrightarrow> n = - 1 \<longrightarrow> False"], goal_cases)
    case (1 f gen' n i opt g y)
    show ?case
    proof (intro impI)
      assume e: "gen' = gen" "n = - 1"
      from total obtain v g1 where "gen g = Some (Some v, g1)" by blast
      with 1(2) e have "f gen (- 1) (i + 1) (Some v) g1 = Some y" by simp
      from 1(1)[OF this] show False by simp
    qed
  qed
  then have never: "nth_loop gen (- 1) i opt g \<noteq> Some y" for y by blast
  show ?thesis
  proof (cases "nth_loop gen (- 1) i opt g")
    case None
    then show ?thesis .
  next
    case (Some y)
    with never[of y] show ?thesis by simp
  qed
qed

subsection \<open>The generator of a literal pack\<close>

lemma pack_generator_fields:
  "pack_generator x xs =
     \<lparr>pack_container = rev (x # xs), pack_current = Suc (length xs), pack_end = 0\<rparr>"
  by (induction xs arbitrary: x) (simp_all add: push_back_def PackGenerator_default_def Let_def)

lemma PackGenerator_yields:
  assumes "pack_end g = 0" and "pack_current g \<le> length (pack_container g)"
  shows "yields PackGenerator_call g (rev (take (pack_current g) (pack_container g)))"
proof -
  define R where "R g xs \<longleftrightarrow> pack_end g = 0 \<and> pack_current g \<le> length (pack_container g) \<and>
      xs = rev (take (pack_current g) (pack_container g))"
    for g :: "'a PackGenerator" and xs
  have "R g (rev (take (pack_current g) (pack_container g)))"
    unfolding R_def using assms by simp
  then show ?thesis
  proof (rule yields_coinduct_list)
    fix g :: "'a PackGenerator" assume "R g []"
    then have "pack_current g = pack_end g" by (auto simp: R_def)
    with \<open>R g []\<close> show "\<exists>g'. PackGenerator_call g = Some (None, g') \<and> R g' []"
      by (simp add: PackGenerator_call_def)
  next
    fix g :: "'a PackGenerator" and x xs assume r: "R g (x # xs)"
    then have e: "pack_end g = 0" and le: "pack_current g \<le> length (pack_container g)"
      and xs: "x # xs = rev (take (pack_current g) (pack_container g))"
      by (simp_all add: R_def)
    from xs have pos: "0 < pack_current g" by (cases "pack_current g") auto
    then obtain c where c: "pack_current g = Suc c" by (cases "pack_current g") auto
    with le have "take (Suc c) (pack_container g) = take c (pack_container g) @ [pack_container g ! c]"
      by (simp add: take_Suc_conv_app_nth)
    with xs c have x: "x = pack_container g ! c" and xs': "xs = rev (take c (pack_container g))"
      by simp_all
    have "R (g\<lparr>pack_current := c\<rparr>) xs"
      unfolding R_def using e le c xs' by simp
    with e le c x
    show "\<exists>g'. PackGenerator_call g = Some (Some x, g') \<and> R g' xs"
      by (simp add: PackGenerator_call_def)
  qed
qed

lemma Stream_pack_yields: "yields PackGenerator_call (pack_generator x xs) (x # xs)"
  using PackGenerator_yields[of "pack_generator x xs"]
  by (simp add: pack_generator_fields)

subsection \<open>get over an infinite generator\<close>

lemma length_gen_values: "length (gen_values f c n) = n"
  by (induction n arbitrary: c) (auto split: prod.splits)

lemma GetGenerator_InfiniteGenerator_yields:
  "yields (GetGenerator_call (InfiniteGenerator_call f)) g (get_infinite_content f g)"
proof -
  define R where "R g xs \<longleftrightarrow> xs = get_infinite_content f g"
    for g :: "'a InfiniteGenerator GetGenerator" and xs
  have "R g (get_infinite_content f g)" by (simp add: R_def)
  then show ?thesis
  proof (rule yields_coinduct_list)
    fix g :: "'a InfiniteGenerator GetGenerator" assume "R g []"
    then have "length (get_infinite_content f g) = 0" by (simp add: R_def)
    then have "amount_to_get g \<le> amount_got g"
      by (simp add: get_infinite_content_def length_gen_values word_le_nat_alt)
    with \<open>R g []\<close>
    show "\<exists>g'. GetGenerator_call (InfiniteGenerator_call f) g = Some (None, g') \<and> R g' []"
      by (simp add: GetGenerator_call_def)
  next
    fix g :: "'a InfiniteGenerator GetGenerator" and x xs assume r: "R g (x # xs)"
    then have "length (get_infinite_content f g) \<noteq> 0" by (auto simp: R_def)
    then have lt: "unat (amount_got g) < unat (amount_to_get g)"
      by (simp add: get_infinite_content_def length_gen_values)
    then have lt': "amount_got g < amount_to_get g" by (simp add: word_less_nat_alt)
    then have u: "unat (amount_got g + 1) = Suc (unat (amount_got g))" by (rule size_t_succ)
    from lt have d: "unat (amount_to_get g) - unat (amount_got g)
        = Suc (unat (amount_to_get g) - Suc (unat (amount_got g)))" by simp
    obtain v c' where f: "f (value_generator (get_parent_gen g)) = (v, c')"
      by (cases "f (value_generator (get_parent_gen g))")
    from r f have x: "x = v"
      and xs: "xs = gen_values f c' (unat (amount_to_get g) - Suc (unat (amount_got g)))"
      by (simp_all add: R_def get_infinite_content_def d)
    have "R (g\<lparr>get_parent_gen := (get_parent_gen g)\<lparr>value_generator := c'\<rparr>,
               amount_got := amount_got g + 1\<rparr>) xs"
      by (simp add: R_def get_infinite_content_def xs u)
    with lt' f x
    show "\<exists>g'. GetGenerator_call (InfiniteGenerator_call f) g = Some (Some x, g') \<and> R g' xs"
      by (simp add: GetGenerator_call_def InfiniteGenerator_call_def)
  qed
qed

lemma GetGenerator_InfiniteGenerator_finite_generator:
  "finite_generator (GetGenerator_class (InfiniteGenerator_class f)) (get_infinite_content f)"
  unfolding finite_generator_def
proof (intro allI conjI)
  fix g :: "'a InfiniteGenerator GetGenerator"
  have "copy_ctor (GetGenerator_class (InfiniteGenerator_class f)) g = g"
    by (simp add: GetGenerator_class_def InfiniteGenerator_class_def)
  moreover have "move_ctor (GetGenerator_class (InfiniteGenerator_class f)) g = g"
    by (simp add: GetGenerator_class_def InfiniteGenerator_class_def)
  moreover have "call (GetGenerator_class (InfiniteGenerator_class f))
      = GetGenerator_call (InfiniteGenerator_call f)"
    by (simp add: GetGenerator_class_def InfiniteGenerator_class_def)
  ultimately show
    "yields (call (GetGenerator_class (InfiniteGenerator_class f)))
       (copy_ctor (GetGenerator_class (InfiniteGenerator_class f)) g) (get_infinite_content f g)"
    "get_infinite_content f (copy_ctor (GetGenerator_class (InfiniteGenerator_class f)) g)
       = get_infinite_content f g"
    "get_infinite_content f (move_ctor (GetGenerator_class (InfiniteGenerator_class f)) g)
       = get_infinite_content f g"
    by (simp_all add: GetGenerator_InfiniteGenerator_yields)
qed

subsection \<open>The groups of a list\<close>

lemma group_list_Nil [simp]: "group_list n [] = []"
  by (subst group_list.simps) simp

lemma group_list_Cons:
  "xs \<noteq> [] \<Longrightarrow> group_list n xs = take (group_len n) xs # group_list n (drop (group_len n) xs)"
  by (subst group_list.simps) simp

lemma concat_group_list: "concat (group_list n xs) = xs"
proof (induction n xs rule: group_list.induct)
  case (1 n xs)
  show ?case
  proof (cases "xs = []")
    case True
    then show ?thesis by simp
  next
    case False
    note gl = group_list_Cons[OF False, of n]
    from 1[OF False] show ?thesis by (simp add: gl)
  qed
qed

lemma group_list_nonempty: "[] \<notin> set (group_list n xs)"
proof (induction n xs rule: group_list.induct)
  case (1 n xs)
  show ?case
  proof (cases "xs = []")
    case True
    then show ?thesis by simp
  next
    case False
    note gl = group_list_Cons[OF False, of n]
    from 1[OF False] False group_len_pos[of n] show ?thesis by (simp add: gl)
  qed
qed

lemma length_group_list:
  "0 < n \<Longrightarrow> length (group_list n xs) = (length xs + n - 1) div n"
proof (induction n xs rule: group_list.induct)
  case (1 n xs)
  show ?case
  proof (cases "xs = []")
    case True
    with 1(2) show ?thesis by simp
  next
    case False
    from 1(2) have gn: "group_len n = n" by (rule group_len_eq)
    note gl = group_list_Cons[OF False, of n, unfolded gn]
    from 1(1)[OF False 1(2)] have IH: "length (group_list n (drop n xs))
        = (length (drop n xs) + n - 1) div n" by (simp only: gn)
    from False obtain m where m: "length xs = Suc m" by (cases xs) auto
    from 1(2) have "n \<noteq> 0" by simp
    from div_add_self2[OF this, of m] have "(m + n) div n = Suc (m div n)" by (simp only: Suc_eq_plus1)
    then have e: "(length xs + n - 1) div n = Suc (m div n)" by (simp only: m add_Suc diff_Suc_1)
    have len: "length (group_list n xs) = Suc (length (group_list n (drop n xs)))"
      by (simp only: gl list.size(4) Suc_eq_plus1)
    show ?thesis
    proof (cases "n \<le> m")
      case True
      then have "length (drop n xs) + n - 1 = m" by (simp add: m)
      with IH e len show ?thesis by (simp only:)
    next
      case lt: False
      then have z: "m div n = 0" by simp
      from lt have "drop n xs = []" by (simp add: m)
      then have "length (group_list n (drop n xs)) = 0" by simp
      with e len z show ?thesis by (simp only:)
    qed
  qed
qed

lemma group_list_full_groups:
  "0 < n \<Longrightarrow> Suc i < length (group_list n xs) \<Longrightarrow> length (group_list n xs ! i) = n"
proof (induction n xs arbitrary: i rule: group_list.induct)
  case (1 n xs)
  from 1(3) have False: "xs \<noteq> []" by auto
  from 1(2) have gn: "group_len n = n" by (rule group_len_eq)
  note gl = group_list_Cons[OF False, of n, unfolded gn]
  from 1(3) have rest: "i < length (group_list n (drop n xs))" by (simp add: gl)
  then have "drop n xs \<noteq> []" by auto
  then have len: "n < length xs" by simp
  show ?case
  proof (cases i)
    case 0
    with len show ?thesis by (simp add: gl)
  next
    case (Suc j)
    with rest have "Suc j < length (group_list n (drop n xs))" by simp
    from 1(1)[OF False, unfolded gn, OF 1(2) this] Suc show ?thesis by (simp add: gl)
  qed
qed

lemma group_list_sizes:
  "0 < n \<Longrightarrow> g \<in> set (group_list n xs) \<Longrightarrow> 0 < length g \<and> length g \<le> n"
proof (induction n xs rule: group_list.induct)
  case (1 n xs)
  from 1(3) have False: "xs \<noteq> []" by auto
  from 1(2) have gn: "group_len n = n" by (rule group_len_eq)
  note gl = group_list_Cons[OF False, of n, unfolded gn]
  from 1(3) have "g = take n xs \<or> g \<in> set (group_list n (drop n xs))" by (simp add: gl)
  then show ?case
  proof
    assume "g = take n xs"
    with False 1(2) show ?thesis by simp
  next
    assume "g \<in> set (group_list n (drop n xs))"
    from 1(1)[OF False, unfolded gn, OF 1(2) this] show ?thesis .
  qed
qed

section \<open>The claims\<close>

subsection \<open>Streams of containers and of literal packs\<close>

lemma Stream_container_content:
  "cont_container (generator (Stream_initializer_list xs)) = xs"
  "cont_container (generator (Stream_container xs)) = xs"
  "cont_container (generator (Stream_iterators xs)) = xs"
  by (simp_all add: Stream_initializer_list_def Stream_container_def Stream_iterators_def
      ContainerGenerator_ctor_def)

lemma Stream_container_Tag:
  "Tag (Stream_initializer_list xs) = Finite"
  "Tag (Stream_container xs) = Finite"
  "Tag (Stream_iterators xs) = Finite"
  by (simp_all add: Stream_initializer_list_def Stream_container_def Stream_iterators_def)

lemma Stream_container_yields:
  "yields (call ContainerGenerator_class)
     (copy_ctor ContainerGenerator_class (generator (Stream_initializer_list xs))) xs"
  using finite_generatorD(1)[OF ContainerGenerator_finite_generator,
      of "generator (Stream_initializer_list xs)"]
  by (simp add: Stream_container_content)

lemma Stream_pack_copy_yields:
  "yields (call PackGenerator_class)
     (copy_ctor PackGenerator_class (generator (Stream_pack x xs))) (x # xs)"
  using Stream_pack_yields[of x xs]
  by (simp add: PackGenerator_class_def Stream_pack_def)

lemma Stream_pack_to_vector:
  "Stream_to_vector PackGenerator_class (Stream_pack x xs) = Some (Inr (x # xs), Stream_pack x xs)"
  by (rule Stream_to_vector_yields[OF Stream_pack_copy_yields]) (simp add: Stream_pack_def)

text \<open>
  No terminal operation assigns to \<^verbatim>\<open>generator_\<close>: the Stream is the same after the call,
  so a second call of the operation starts from the same stored generator.
\<close>

lemma terminal_operations_keep_stream:
  "Stream_to_vector P s = Some (r1, s1) \<Longrightarrow> s1 = s"
  "Stream_sum P' s = Some (r2, s2) \<Longrightarrow> s2 = s"
  "Stream_reduce P s identity accumulator = Some (r3, s3) \<Longrightarrow> s3 = s"
  "Stream_print_to P shw s os delimiter = Some (r4, s4) \<Longrightarrow> s4 = s"
  "Stream_nth P s n = Some (r5, s5) \<Longrightarrow> s5 = s"
  by (auto simp: Stream_to_vector_def Stream_sum_def Stream_reduce_def Stream_print_to_def
      Stream_nth_def split: if_splits bind_splits prod.splits option.splits)

text \<open>
  A move-constructed PackGenerator has \<^verbatim>\<open>current_ = reverse_iterator(cbegin())\<close>, which is
  \<^verbatim>\<open>crend()\<close>, and \<^verbatim>\<open>end_ = reverse_iterator(cend())\<close>, which is \<^verbatim>\<open>crbegin()\<close>: with a
  container that is not empty the two differ and \<^verbatim>\<open>operator()\<close> dereferences \<^verbatim>\<open>crend()\<close>.
\<close>

lemma PackGenerator_call_moved:
  "pack_container other \<noteq> [] \<Longrightarrow> PackGenerator_call (PackGenerator_move other) = None"
  by (simp add: PackGenerator_call_def PackGenerator_move_def)

lemma Stream_to_vector_undefined:
  assumes "Tag s = Finite" and "call P (copy_ctor P (generator s)) = None"
  shows "Stream_to_vector P s = None"
  using assms
  by (simp add: Stream_to_vector_def to_vector_loop.simps[of "call P" "[]" "copy_ctor P (generator s)"])

lemma pack_generator_not_empty: "pack_container (pack_generator x xs) \<noteq> []"
  by (simp add: pack_generator_fields)

lemma Stream_pack_moved_parent:
  "PackGenerator_call (move_ctor PackGenerator_class
       (copy_ctor PackGenerator_class (generator (Stream_pack x xs)))) = None"
  by (simp add: PackGenerator_class_def Stream_pack_def PackGenerator_call_moved
      pack_generator_not_empty)

subsection \<open>skip, get and group on finite generators\<close>

lemma SkipGenerator_call_skipped:
  "skipped g \<Longrightarrow> SkipGenerator_call parent g =
     parent (skip_parent_gen g) \<bind> (\<lambda>(opt, p'). Some (opt, g\<lparr>skip_parent_gen := p'\<rparr>))"
  by (simp add: SkipGenerator_call_def)

lemma SkipGenerator_call_sets_skipped:
  "SkipGenerator_call parent g = Some (r, g') \<Longrightarrow> skipped g'"
  by (auto simp: SkipGenerator_call_def split: if_splits bind_splits prod.splits)

text \<open>
  For a Finite Stream whose generator type is a finite generator with contents \<open>xs\<close> of
  length \<open>n\<close>, \<^verbatim>\<open>skip(k)\<close> followed by \<^verbatim>\<open>to_vector\<close> returns \<open>xs\<close> without its first \<open>k\<close>
  elements, which are \<open>n - k\<close> elements, none when \<open>k\<close> exceeds \<open>n\<close>. The operator builds the
  generator with \<^verbatim>\<open>skipped_\<close> false and without calling the parent; a copy of the stored
  generator yields the remaining elements and then end-of-sequence for ever, also when the
  parent ends during the skipping; every call that returns leaves \<^verbatim>\<open>skipped_\<close> true, and a
  call with \<^verbatim>\<open>skipped_\<close> true is one call of the parent.
\<close>

lemma Stream_skip_to_vector:
  assumes "finite_generator P content" and "Tag s = Finite"
  shows "Stream_to_vector (SkipGenerator_class P) (Stream_skip P s k) =
           Some (Inr (drop (unat k) (content (generator s))), Stream_skip P s k) \<and>
         length (drop (unat k) (content (generator s))) = length (content (generator s)) - unat k \<and>
         generator (Stream_skip P s k) =
           \<lparr>skip_parent_gen = move_ctor P (copy_ctor P (generator s)),
            amount_to_skip = k, skipped = False\<rparr> \<and>
         yields (call (SkipGenerator_class P))
           (copy_ctor (SkipGenerator_class P) (generator (Stream_skip P s k)))
           (drop (unat k) (content (generator s))) \<and>
         (\<forall>parent g. skipped g \<longrightarrow>
            SkipGenerator_call parent g =
              parent (skip_parent_gen g) \<bind> (\<lambda>(opt, p'). Some (opt, g\<lparr>skip_parent_gen := p'\<rparr>))) \<and>
         (\<forall>parent g r g'. SkipGenerator_call parent g = Some (r, g') \<longrightarrow> skipped g')"
proof -
  note fin = SkipGenerator_finite_generator[OF assms(1)]
  have gen: "generator (Stream_skip P s k) =
      \<lparr>skip_parent_gen = move_ctor P (copy_ctor P (generator s)),
       amount_to_skip = k, skipped = False\<rparr>"
    by (simp add: Stream_skip_def Stream_private_def SkipGenerator_ctor_def SkipGenerator_class_def)
  have tag: "Tag (Stream_skip P s k) = Finite"
    using assms(2) by (simp add: Stream_skip_def Stream_private_def)
  have c: "skip_content content (generator (Stream_skip P s k))
      = drop (unat k) (content (generator s))"
    by (simp add: gen skip_content_def finite_generatorD(2,3)[OF assms(1)])
  from Stream_to_vector_finite[OF fin tag]
  have 1: "Stream_to_vector (SkipGenerator_class P) (Stream_skip P s k) =
           Some (Inr (drop (unat k) (content (generator s))), Stream_skip P s k)"
    by (simp only: c)
  from finite_generatorD(1)[OF fin, of "generator (Stream_skip P s k)"]
  have 2: "yields (call (SkipGenerator_class P))
           (copy_ctor (SkipGenerator_class P) (generator (Stream_skip P s k)))
           (drop (unat k) (content (generator s)))"
    by (simp only: c)
  have 3: "\<forall>parent g. skipped g \<longrightarrow>
            SkipGenerator_call parent g =
              parent (skip_parent_gen g) \<bind> (\<lambda>(opt, p'). Some (opt, g\<lparr>skip_parent_gen := p'\<rparr>))"
    by (simp add: SkipGenerator_call_skipped)
  have 4: "\<forall>parent g r g'. SkipGenerator_call parent g = Some (r, g') \<longrightarrow> skipped g'"
    by (blast intro: SkipGenerator_call_sets_skipped)
  from 1 gen 2 3 4 show ?thesis by simp
qed

lemma GetGenerator_call_done:
  "amount_to_get g \<le> amount_got g \<Longrightarrow> GetGenerator_call parent g = Some (None, g)"
  by (simp add: GetGenerator_call_def)

lemma GetGenerator_call_delegates:
  "amount_got g < amount_to_get g \<Longrightarrow> parent (get_parent_gen g) = Some (opt, p') \<Longrightarrow>
   GetGenerator_call parent g =
     Some (opt, g\<lparr>get_parent_gen := p', amount_got := amount_got g + 1\<rparr>)"
  by (auto simp: GetGenerator_call_def dest: leD)

text \<open>
  For a Stream whose generator type is a finite generator with contents \<open>xs\<close> of length
  \<open>n\<close>, \<^verbatim>\<open>get(k)\<close> followed by \<^verbatim>\<open>to_vector\<close> returns the first \<open>min n k\<close> elements of \<open>xs\<close> in
  order and throws nothing; a copy of the stored generator yields these elements and then
  end-of-sequence on every later call.
\<close>

lemma Stream_get_to_vector:
  assumes "finite_generator P content"
  shows "Stream_to_vector (GetGenerator_class P) (Stream_get P s k) =
           Some (Inr (take (unat k) (content (generator s))), Stream_get P s k) \<and>
         length (take (unat k) (content (generator s))) = min (length (content (generator s))) (unat k) \<and>
         yields (call (GetGenerator_class P))
           (copy_ctor (GetGenerator_class P) (generator (Stream_get P s k)))
           (take (unat k) (content (generator s)))"
proof -
  note fin = GetGenerator_finite_generator[OF assms(1)]
  have gen: "generator (Stream_get P s k) =
      \<lparr>get_parent_gen = move_ctor P (copy_ctor P (generator s)),
       amount_to_get = k, amount_got = 0\<rparr>"
    by (simp add: Stream_get_def Stream_private_def GetGenerator_ctor_def GetGenerator_class_def)
  have tag: "Tag (Stream_get P s k) = Finite"
    by (simp add: Stream_get_def Stream_private_def)
  have c: "get_content content (generator (Stream_get P s k))
      = take (unat k) (content (generator s))"
    by (simp add: gen get_content_def finite_generatorD(2,3)[OF assms(1)])
  from Stream_to_vector_finite[OF fin tag]
  have 1: "Stream_to_vector (GetGenerator_class P) (Stream_get P s k) =
           Some (Inr (take (unat k) (content (generator s))), Stream_get P s k)"
    by (simp only: c)
  from finite_generatorD(1)[OF fin, of "generator (Stream_get P s k)"]
  have 2: "yields (call (GetGenerator_class P))
           (copy_ctor (GetGenerator_class P) (generator (Stream_get P s k)))
           (take (unat k) (content (generator s)))"
    by (simp only: c)
  from 1 2 show ?thesis by simp
qed

lemma GroupGenerator_call_end:
  assumes "GroupGenerator_call parent g = Some (None, g')"
  shows "\<exists>p'. parent (group_parent_gen g) = Some (None, p')"
proof (cases "parent (group_parent_gen g)")
  case None
  with assms show ?thesis by (simp add: GroupGenerator_call_def)
next
  case (Some r)
  obtain opt p where r: "r = (opt, p)" by (cases r)
  show ?thesis
  proof (cases opt)
    case None
    with Some r show ?thesis by simp
  next
    case v: (Some v)
    with assms Some r show ?thesis
      by (cases "group_loop parent (group_size g) [] 0 v p")
        (auto simp: GroupGenerator_call_def)
  qed
qed

text \<open>
  For a Finite Stream whose generator type is a finite generator with contents \<open>xs\<close> of
  length \<open>n\<close> and a group size \<open>g \<ge> 1\<close>, \<^verbatim>\<open>group(g)\<close> followed by \<^verbatim>\<open>to_vector\<close> returns
  \<open>\<lceil>n / g\<rceil>\<close> groups; every group but the last has \<open>g\<close> elements, every group has at least
  one and at most \<open>g\<close>; the groups concatenated are \<open>xs\<close>. A call of the group generator
  returns end-of-sequence only when its first call of the parent does.
\<close>

lemma Stream_group_to_vector:
  assumes "finite_generator P content" and "Tag s = Finite" and "gsize \<noteq> 0"
  shows "Stream_to_vector (GroupGenerator_class P) (Stream_group P s gsize) =
           Some (Inr (group_list (unat gsize) (content (generator s))), Stream_group P s gsize) \<and>
         length (group_list (unat gsize) (content (generator s))) =
           (length (content (generator s)) + unat gsize - 1) div unat gsize \<and>
         (\<forall>i. Suc i < length (group_list (unat gsize) (content (generator s))) \<longrightarrow>
            length (group_list (unat gsize) (content (generator s)) ! i) = unat gsize) \<and>
         (\<forall>grp \<in> set (group_list (unat gsize) (content (generator s))).
            0 < length grp \<and> length grp \<le> unat gsize) \<and>
         concat (group_list (unat gsize) (content (generator s))) = content (generator s) \<and>
         (\<forall>parent g g'. GroupGenerator_call parent g = Some (None, g') \<longrightarrow>
            (\<exists>p'. parent (group_parent_gen g) = Some (None, p')))"
proof -
  note fin = GroupGenerator_finite_generator[OF assms(1)]
  from assms(3) have pos: "0 < unat gsize" by (simp add: unat_gt_0)
  have gen: "generator (Stream_group P s gsize) =
      \<lparr>group_parent_gen = move_ctor P (copy_ctor P (generator s)), group_size = gsize\<rparr>"
    by (simp add: Stream_group_def Stream_private_def GroupGenerator_ctor_def
        GroupGenerator_class_def)
  have tag: "Tag (Stream_group P s gsize) = Finite"
    using assms(2) by (simp add: Stream_group_def Stream_private_def)
  have c: "group_content content (generator (Stream_group P s gsize))
      = group_list (unat gsize) (content (generator s))"
    by (simp add: gen group_content_def finite_generatorD(2,3)[OF assms(1)])
  from Stream_to_vector_finite[OF fin tag]
  have 1: "Stream_to_vector (GroupGenerator_class P) (Stream_group P s gsize) =
           Some (Inr (group_list (unat gsize) (content (generator s))), Stream_group P s gsize)"
    by (simp only: c)
  have 2: "\<forall>parent g g'. GroupGenerator_call parent g = Some (None, g') \<longrightarrow>
            (\<exists>p'. parent (group_parent_gen g) = Some (None, p'))"
    by (blast dest: GroupGenerator_call_end)
  have 3: "length (group_list (unat gsize) (content (generator s))) =
           (length (content (generator s)) + unat gsize - 1) div unat gsize"
    by (rule length_group_list[OF pos])
  have 4: "\<forall>i. Suc i < length (group_list (unat gsize) (content (generator s))) \<longrightarrow>
            length (group_list (unat gsize) (content (generator s)) ! i) = unat gsize"
    by (intro allI impI) (rule group_list_full_groups[OF pos])
  have 5: "\<forall>grp \<in> set (group_list (unat gsize) (content (generator s))).
            0 < length grp \<and> length grp \<le> unat gsize"
    by (intro ballI) (rule group_list_sizes[OF pos])
  have 6: "concat (group_list (unat gsize) (content (generator s))) = content (generator s)"
    by (rule concat_group_list)
  show ?thesis by (intro conjI; fact)
qed

subsection \<open>Values of an infinite generator\<close>

lemma pull_upto_InfiniteGenerator:
  "\<exists>g'. pull_upto (InfiniteGenerator_call f) k g
     = Some (gen_values f (value_generator g) k, k, g')"
proof (induction k arbitrary: g)
  case 0
  then show ?case by simp
next
  case (Suc k)
  obtain v c' where f: "f (value_generator g) = (v, c')" by (cases "f (value_generator g)")
  from Suc[of "g\<lparr>value_generator := c'\<rparr>"] obtain g' where
    "pull_upto (InfiniteGenerator_call f) k (g\<lparr>value_generator := c'\<rparr>)
       = Some (gen_values f c' k, k, g')" by auto
  moreover from f have "InfiniteGenerator_call f g = Some (Some v, g\<lparr>value_generator := c'\<rparr>)"
    by (simp add: InfiniteGenerator_call_def)
  ultimately show ?case using f by simp
qed

lemma Stream_value_generator_nth:
  assumes "n \<noteq> - 1"
  shows "Stream_nth (InfiniteGenerator_class f) (Stream_value_generator c) n =
     Some (Inr (last (gen_values f c (Suc (unat n)))), Stream_value_generator c)"
proof -
  from pull_upto_InfiniteGenerator[of f "Suc (unat n)" "\<lparr>value_generator = c\<rparr>"] obtain g' where
    p: "pull_upto (InfiniteGenerator_call f) (Suc (unat n)) \<lparr>value_generator = c\<rparr>
       = Some (gen_values f c (Suc (unat n)), Suc (unat n), g')" by auto
  have c: "call (InfiniteGenerator_class f) = InfiniteGenerator_call f"
    "copy_ctor (InfiniteGenerator_class f) (generator (Stream_value_generator c))
       = \<lparr>value_generator = c\<rparr>"
    by (simp_all add: InfiniteGenerator_class_def Stream_value_generator_def)
  show ?thesis
    unfolding Stream_nth_pull_upto[OF assms] c p
    by (simp add: length_gen_values del: gen_values.simps)
qed

lemma Stream_nth_no_static_assertion:
  "Stream_nth P s n \<noteq> Some (Inl (StaticAssertion msg), s')"
  by (auto simp: Stream_nth_def split: bind_splits prod.splits if_splits option.splits)

subsection \<open>The claims, one by one\<close>

lemma Stream_skip_pack_undefined:
  "Stream_to_vector (SkipGenerator_class PackGenerator_class)
     (Stream_skip PackGenerator_class (Stream_pack x xs) k) = None"
proof (rule Stream_to_vector_undefined)
  show "Tag (Stream_skip PackGenerator_class (Stream_pack x xs) k) = Finite"
    by (simp add: Stream_skip_def Stream_private_def Stream_pack_def)
  have "SkipGenerator_call PackGenerator_call
      \<lparr>skip_parent_gen = PackGenerator_move (pack_generator x xs),
       amount_to_skip = k, skipped = False\<rparr> = None"
    by (cases "0 < k")
      (simp_all add: SkipGenerator_call_def PackGenerator_call_moved pack_generator_not_empty
        skip_loop.simps[of PackGenerator_call k 0])
  then show "call (SkipGenerator_class PackGenerator_class)
      (copy_ctor (SkipGenerator_class PackGenerator_class)
        (generator (Stream_skip PackGenerator_class (Stream_pack x xs) k))) = None"
    by (simp add: Stream_skip_def Stream_private_def SkipGenerator_ctor_def
        SkipGenerator_class_def PackGenerator_class_def Stream_pack_def)
qed

lemma Stream_get_pack_undefined:
  assumes "k \<noteq> 0"
  shows "Stream_to_vector (GetGenerator_class PackGenerator_class)
     (Stream_get PackGenerator_class (Stream_pack x xs) k) = None"
proof (rule Stream_to_vector_undefined)
  show "Tag (Stream_get PackGenerator_class (Stream_pack x xs) k) = Finite"
    by (simp add: Stream_get_def Stream_private_def)
  from assms have "\<not> k \<le> 0" by simp
  then have "GetGenerator_call PackGenerator_call
      \<lparr>get_parent_gen = PackGenerator_move (pack_generator x xs),
       amount_to_get = k, amount_got = 0\<rparr> = None"
    by (simp add: GetGenerator_call_def PackGenerator_call_moved pack_generator_not_empty)
  then show "call (GetGenerator_class PackGenerator_class)
      (copy_ctor (GetGenerator_class PackGenerator_class)
        (generator (Stream_get PackGenerator_class (Stream_pack x xs) k))) = None"
    by (simp add: Stream_get_def Stream_private_def GetGenerator_ctor_def
        GetGenerator_class_def PackGenerator_class_def Stream_pack_def)
qed

lemma Stream_group_pack_undefined:
  "Stream_to_vector (GroupGenerator_class PackGenerator_class)
     (Stream_group PackGenerator_class (Stream_pack x xs) gsize) = None"
proof (rule Stream_to_vector_undefined)
  show "Tag (Stream_group PackGenerator_class (Stream_pack x xs) gsize) = Finite"
    by (simp add: Stream_group_def Stream_private_def Stream_pack_def)
  have "GroupGenerator_call PackGenerator_call
      \<lparr>group_parent_gen = PackGenerator_move (pack_generator x xs), group_size = gsize\<rparr> = None"
    by (simp add: GroupGenerator_call_def PackGenerator_call_moved pack_generator_not_empty)
  then show "call (GroupGenerator_class PackGenerator_class)
      (copy_ctor (GroupGenerator_class PackGenerator_class)
        (generator (Stream_group PackGenerator_class (Stream_pack x xs) gsize))) = None"
    by (simp add: Stream_group_def Stream_private_def GroupGenerator_ctor_def
        GroupGenerator_class_def PackGenerator_class_def Stream_pack_def)
qed

text \<open>
  Claim C1. A terminal operation runs on a copy of the stored generator and leaves the
  Stream as it was (\<open>terminal_operations_keep_stream\<close>); on the Stream of the literal pack
  \<^verbatim>\<open>(1, 2, 3)\<close> the copy starts at the first literal and \<^verbatim>\<open>to_vector\<close> returns \<open>[1, 2, 3]\<close>.
  But the Stream that \<^verbatim>\<open>skip(0)\<close> builds from it stores a move-constructed PackGenerator,
  whose cursor is \<open>0\<close> (\<^verbatim>\<open>crend()\<close>) where the pack's initial cursor is \<open>3\<close> (\<^verbatim>\<open>crbegin()\<close>):
  the first call of the copy that \<^verbatim>\<open>to_vector\<close> or \<^verbatim>\<open>nth\<close> makes has no defined result, and
  neither has the operation. The same holds for a move-constructed copy of the pack's
  Stream.
\<close>

theorem C1_pack_moved:
  "Stream_to_vector PackGenerator_class (Stream_pack 1 [2, 3 :: int]) =
     Some (Inr [1, 2, 3], Stream_pack 1 [2, 3]) \<and>
   generator (Stream_pack 1 [2, 3 :: int]) =
     \<lparr>pack_container = [3, 2, 1], pack_current = 3, pack_end = 0\<rparr> \<and>
   generator (Stream_skip PackGenerator_class (Stream_pack 1 [2, 3 :: int]) 0) =
     \<lparr>skip_parent_gen = \<lparr>pack_container = [3, 2, 1], pack_current = 0, pack_end = 3\<rparr>,
      amount_to_skip = 0, skipped = False\<rparr> \<and>
   call (SkipGenerator_class PackGenerator_class)
     (copy_ctor (SkipGenerator_class PackGenerator_class)
        (generator (Stream_skip PackGenerator_class (Stream_pack 1 [2, 3 :: int]) 0))) = None \<and>
   Stream_to_vector (SkipGenerator_class PackGenerator_class)
     (Stream_skip PackGenerator_class (Stream_pack 1 [2, 3 :: int]) 0) = None \<and>
   Stream_nth (SkipGenerator_class PackGenerator_class)
     (Stream_skip PackGenerator_class (Stream_pack 1 [2, 3 :: int]) 0) 0 = None \<and>
   Stream_to_vector PackGenerator_class
     (Stream_move PackGenerator_class (Stream_pack 1 [2, 3 :: int])) = None"
proof -
  have g: "generator (Stream_pack 1 [2, 3 :: int]) =
     \<lparr>pack_container = [3, 2, 1], pack_current = 3, pack_end = 0\<rparr>"
    by (simp add: Stream_pack_def pack_generator_fields)
  have t: "Tag (Stream_pack 1 [2, 3 :: int]) = Finite"
    by (simp add: Stream_pack_def)
  have sk: "generator (Stream_skip PackGenerator_class (Stream_pack 1 [2, 3 :: int]) 0) =
     \<lparr>skip_parent_gen = \<lparr>pack_container = [3, 2, 1], pack_current = 0, pack_end = 3\<rparr>,
      amount_to_skip = 0, skipped = False\<rparr>"
    by (simp add: Stream_skip_def Stream_private_def SkipGenerator_ctor_def
        SkipGenerator_class_def PackGenerator_class_def PackGenerator_move_def g)
  have cp: "copy_ctor (SkipGenerator_class PackGenerator_class)
      \<lparr>skip_parent_gen = \<lparr>pack_container = [3, 2, 1 :: int], pack_current = 0, pack_end = 3\<rparr>,
       amount_to_skip = 0, skipped = False\<rparr>
     = \<lparr>skip_parent_gen = \<lparr>pack_container = [3, 2, 1], pack_current = 0, pack_end = 3\<rparr>,
       amount_to_skip = 0, skipped = False\<rparr>"
    by (simp add: SkipGenerator_class_def PackGenerator_class_def)
  have pk: "PackGenerator_call \<lparr>pack_container = c, pack_current = 0, pack_end = e\<rparr> = None"
    if "e \<noteq> 0" for c :: "int list" and e
    using that by (simp add: PackGenerator_call_def)
  have c: "call (SkipGenerator_class PackGenerator_class)
      \<lparr>skip_parent_gen = \<lparr>pack_container = [3, 2, 1 :: int], pack_current = 0, pack_end = 3\<rparr>,
       amount_to_skip = 0, skipped = False\<rparr> = None"
    by (simp add: SkipGenerator_class_def PackGenerator_class_def SkipGenerator_call_def
        skip_loop.simps[of _ 0 0] pk)
  have 1: "Stream_to_vector (SkipGenerator_class PackGenerator_class)
     (Stream_skip PackGenerator_class (Stream_pack 1 [2, 3 :: int]) 0) = None"
    by (rule Stream_skip_pack_undefined)
  have 2: "Stream_nth (SkipGenerator_class PackGenerator_class)
     (Stream_skip PackGenerator_class (Stream_pack 1 [2, 3 :: int]) 0) 0 = None"
    by (simp add: Stream_nth_def sk cp c
        nth_loop.simps[of "call (SkipGenerator_class PackGenerator_class)" 0 0])
  have 3: "Stream_to_vector PackGenerator_class
     (Stream_move PackGenerator_class (Stream_pack 1 [2, 3 :: int])) = None"
    by (simp add: Stream_to_vector_def Stream_move_def t g PackGenerator_class_def
        PackGenerator_move_def pk to_vector_loop.simps[of PackGenerator_call "[]"])
  show ?thesis
    by (simp add: Stream_pack_to_vector g sk cp c 1 2 3)
qed

text \<open>
  Claim C2. \<^verbatim>\<open>get\<close> always returns a Stream tagged Finite, whatever the tag of the Stream
  it is applied to; \<^verbatim>\<open>skip\<close>, \<^verbatim>\<open>filter\<close>, \<^verbatim>\<open>map\<close> and \<^verbatim>\<open>group\<close> return a Stream with the
  tag of the Stream they are applied to, so \<^verbatim>\<open>get\<close> is the only operation that changes a
  tag.
\<close>

theorem C2_finiteness_tags:
  "Tag (Stream_get P s amount) = Finite \<and>
   Tag (Stream_skip P s amount) = Tag s \<and>
   Tag (Stream_filter P s pred) = Tag s \<and>
   Tag (Stream_map P s t) = Tag s \<and>
   Tag (Stream_group P s gsize) = Tag s"
  by (simp add: Stream_get_def Stream_skip_def Stream_filter_def Stream_map_def
      Stream_group_def Stream_private_def)

text \<open>
  Claim C3. \<^verbatim>\<open>group(0)\<close> is accepted: the check in the constructor of \<^verbatim>\<open>group\<close> is
  commented out, the operator builds the generator without any call of its parent, and
  the Stream then produces groups of one element each.
\<close>

theorem C3_group_zero:
  "Stream_group ContainerGenerator_class (Stream_initializer_list [1, 2, 3 :: int]) 0 =
     \<lparr>generator = \<lparr>group_parent_gen = ContainerGenerator_ctor [1, 2, 3], group_size = 0\<rparr>,
      Tag = Finite\<rparr> \<and>
   Stream_to_vector (GroupGenerator_class ContainerGenerator_class)
       (Stream_group ContainerGenerator_class (Stream_initializer_list [1, 2, 3 :: int]) 0) =
     Some (Inr [[1], [2], [3]],
       Stream_group ContainerGenerator_class (Stream_initializer_list [1, 2, 3]) 0)"
proof -
  have l: "group_list 0 [1, 2, 3 :: int] = [[1], [2], [3]]"
    by (simp add: group_list_Cons group_len_def)
  from Stream_to_vector_finite[OF GroupGenerator_finite_generator[OF ContainerGenerator_finite_generator],
      of "Stream_group ContainerGenerator_class (Stream_initializer_list [1, 2, 3 :: int]) 0"]
  show ?thesis
    by (simp add: Stream_group_def Stream_private_def GroupGenerator_ctor_def
        GroupGenerator_class_def ContainerGenerator_class_def Stream_initializer_list_def
        ContainerGenerator_ctor_def group_content_def l)
qed

text \<open>
  For every Stream, Finite or Infinite, and every index \<open>n\<close> below the largest \<^verbatim>\<open>size_t\<close>,
  \<^verbatim>\<open>nth(n)\<close> calls a copy of the generator at most \<open>n + 1\<close> times, stopping at the first
  end-of-sequence. When all \<open>n + 1\<close> calls return a value it returns the last of them;
  otherwise it throws \<^verbatim>\<open>IllegalStreamOperation\<close> ("Stream doesn't contain enough elements
  ..."), and then the last call made is the one that returned end-of-sequence. No tag is
  asked for.
\<close>

lemma Stream_nth_below_max:
  assumes "n \<noteq> - 1"
  shows "Stream_nth P s n =
           pull_upto (call P) (Suc (unat n)) (copy_ctor P (generator s)) \<bind> (\<lambda>(vs, c, g').
             Some (if length vs = Suc (unat n) then Inr (last vs)
                   else Inl (IllegalStreamOperation
                     ''Stream doesn't contain enough elements to perform operation 'nth'.''), s)) \<and>
         (\<forall>vs c g'. pull_upto (call P) (Suc (unat n)) (copy_ctor P (generator s)) = Some (vs, c, g')
            \<longrightarrow> c \<le> Suc (unat n) \<and> length vs \<le> c \<and>
                (length vs \<noteq> Suc (unat n) \<longrightarrow> c = Suc (length vs)))"
proof (intro conjI allI impI)
  show "Stream_nth P s n =
           pull_upto (call P) (Suc (unat n)) (copy_ctor P (generator s)) \<bind> (\<lambda>(vs, c, g').
             Some (if length vs = Suc (unat n) then Inr (last vs)
                   else Inl (IllegalStreamOperation
                     ''Stream doesn't contain enough elements to perform operation 'nth'.''), s))"
    by (rule Stream_nth_pull_upto[OF assms])
next
  fix vs c g'
  assume p: "pull_upto (call P) (Suc (unat n)) (copy_ctor P (generator s)) = Some (vs, c, g')"
  from pull_upto_bounds[OF p] show "c \<le> Suc (unat n)" by simp
  from pull_upto_bounds[OF p] show "length vs \<le> c" by simp
  assume "length vs \<noteq> Suc (unat n)"
  with pull_upto_bounds[OF p] show "c = Suc (length vs)" by auto
qed

lemma Stream_nth_below_max_example:
  "(3 :: size_t) \<noteq> - 1 \<and>
   Stream_nth ContainerGenerator_class (Stream_initializer_list [1, 2, 3, 4, 5 :: int]) 3 =
     Some (Inr 4, Stream_initializer_list [1, 2, 3, 4, 5]) \<and>
   (5 :: size_t) \<noteq> - 1 \<and>
   Stream_nth ContainerGenerator_class (Stream_initializer_list [1, 2, 3, 4, 5 :: int]) 5 =
     Some (Inl (IllegalStreamOperation
       ''Stream doesn't contain enough elements to perform operation 'nth'.''),
       Stream_initializer_list [1, 2, 3, 4, 5])"
proof -
  have n3: "(3 :: size_t) \<noteq> - 1" and n5: "(5 :: size_t) \<noteq> - 1" by simp_all
  have u: "Suc (unat (3 :: size_t)) = Suc (Suc (Suc (Suc 0)))"
    "Suc (unat (5 :: size_t)) = Suc (Suc (Suc (Suc (Suc (Suc 0)))))" by simp_all
  have c: "call ContainerGenerator_class = ContainerGenerator_call"
    "copy_ctor ContainerGenerator_class (generator (Stream_initializer_list [1, 2, 3, 4, 5 :: int]))
       = ContainerGenerator_ctor [1, 2, 3, 4, 5]"
    by (simp_all add: ContainerGenerator_class_def Stream_initializer_list_def
        ContainerGenerator_ctor_def)
  have p3: "pull_upto ContainerGenerator_call (Suc (Suc (Suc (Suc 0))))
      (ContainerGenerator_ctor [1, 2, 3, 4, 5 :: int])
      = Some ([1, 2, 3, 4], 4, \<lparr>cont_container = [1, 2, 3, 4, 5], cont_current = 4, cont_end = 5\<rparr>)"
    by (simp add: ContainerGenerator_call_def ContainerGenerator_ctor_def)
  have p5: "pull_upto ContainerGenerator_call (Suc (Suc (Suc (Suc (Suc (Suc 0))))))
      (ContainerGenerator_ctor [1, 2, 3, 4, 5 :: int])
      = Some ([1, 2, 3, 4, 5], 6, \<lparr>cont_container = [1, 2, 3, 4, 5], cont_current = 5, cont_end = 5\<rparr>)"
    by (simp add: ContainerGenerator_call_def ContainerGenerator_ctor_def)
  from Stream_nth_below_max[OF n3, of ContainerGenerator_class "Stream_initializer_list [1, 2, 3, 4, 5 :: int]"]
  have r3: "Stream_nth ContainerGenerator_class (Stream_initializer_list [1, 2, 3, 4, 5 :: int]) 3 =
     Some (Inr 4, Stream_initializer_list [1, 2, 3, 4, 5])"
    unfolding c u p3 by simp
  from Stream_nth_below_max[OF n5, of ContainerGenerator_class "Stream_initializer_list [1, 2, 3, 4, 5 :: int]"]
  have r5: "Stream_nth ContainerGenerator_class (Stream_initializer_list [1, 2, 3, 4, 5 :: int]) 5 =
     Some (Inl (IllegalStreamOperation
       ''Stream doesn't contain enough elements to perform operation 'nth'.''),
       Stream_initializer_list [1, 2, 3, 4, 5])"
    unfolding c u p5 by simp
  from n3 r3 n5 r5 show ?thesis by (intro conjI)
qed

text \<open>
  With \<open>n\<close> the largest \<^verbatim>\<open>size_t\<close> the loop condition \<^verbatim>\<open>i <= n\<close> holds for every \<open>i\<close>, and
  the loop ends only when the generator does. On a generator that yields a finite list it
  ends there, and \<^verbatim>\<open>nth\<close> throws as for every other index.
\<close>

lemma nth_loop_max_yields:
  "yields gen g xs \<Longrightarrow>
   \<exists>g'. nth_loop gen (- 1) i opt g = Some (i + of_nat (length xs), None, g')"
proof (induction xs arbitrary: i opt g)
  case Nil
  from yields_NilD[OF Nil] obtain g' where "gen g = Some (None, g')" by blast
  then show ?case by (subst nth_loop.simps) simp
next
  case (Cons x xs)
  from yields_ConsD[OF Cons.prems] obtain g' where
    g': "gen g = Some (Some x, g')" "yields gen g' xs" by blast
  from Cons.IH[OF g'(2), of "i + 1" "Some x"] obtain g'' where
    "nth_loop gen (- 1) (i + 1) (Some x) g' = Some (i + 1 + of_nat (length xs), None, g'')"
    by blast
  with g'(1) show ?case by (subst nth_loop.simps) (simp add: add.assoc)
qed

lemma Stream_nth_max_yields:
  assumes "yields (call P) (copy_ctor P (generator s)) xs"
  shows "Stream_nth P s (- 1) =
     Some (Inl (IllegalStreamOperation
       ''Stream doesn't contain enough elements to perform operation 'nth'.''), s)"
proof -
  from nth_loop_max_yields[OF assms, of 0 None] obtain g' where
    "nth_loop (call P) (- 1) 0 None (copy_ctor P (generator s))
       = Some (0 + of_nat (length xs), None, g')" by blast
  then show ?thesis by (simp add: Stream_nth_def)
qed

lemma Stream_value_generator_nth_max:
  "Stream_nth (InfiniteGenerator_class f) (Stream_value_generator c) (- 1) = None"
proof -
  have "\<exists>v g'. InfiniteGenerator_call f g = Some (Some v, g')" for g
    by (cases "f (value_generator g)") (simp add: InfiniteGenerator_call_def)
  from nth_loop_max_never_returns[of "InfiniteGenerator_call f", OF this]
  show ?thesis
    by (simp add: Stream_nth_def InfiniteGenerator_class_def)
qed

text \<open>
  Claim C4. With \<open>n\<close> the largest \<^verbatim>\<open>size_t\<close>, \<^verbatim>\<open>nth(n)\<close> on the Stream of a value generator
  never returns: \<^verbatim>\<open>++i\<close> wraps round to \<open>0\<close> and the condition \<^verbatim>\<open>i <= n\<close> never fails, so
  the calls of the generator are not bounded by \<open>n + 1\<close> and no value is returned. Everywhere
  else \<^verbatim>\<open>nth\<close> does what the claim says: on the initializer list \<^verbatim>\<open>{1, 2, 3, 4, 5}\<close> with the
  same \<open>n\<close> it throws \<^verbatim>\<open>IllegalStreamOperation\<close>, \<^verbatim>\<open>nth(3)\<close> returns \<open>4\<close> and \<^verbatim>\<open>nth(5)\<close>
  throws, and on the value generator that counts from \<open>0\<close>, \<^verbatim>\<open>nth(2)\<close> returns \<open>2\<close>.
\<close>

theorem C4_nth_size_max:
  "Stream_nth (InfiniteGenerator_class (\<lambda>c :: unit. (0 :: nat, c))) (Stream_value_generator ())
     (- 1) = None \<and>
   Stream_nth ContainerGenerator_class (Stream_initializer_list [1, 2, 3, 4, 5 :: int]) (- 1) =
     Some (Inl (IllegalStreamOperation
       ''Stream doesn't contain enough elements to perform operation 'nth'.''),
       Stream_initializer_list [1, 2, 3, 4, 5]) \<and>
   Stream_nth ContainerGenerator_class (Stream_initializer_list [1, 2, 3, 4, 5 :: int]) 3 =
     Some (Inr 4, Stream_initializer_list [1, 2, 3, 4, 5]) \<and>
   Stream_nth ContainerGenerator_class (Stream_initializer_list [1, 2, 3, 4, 5 :: int]) 5 =
     Some (Inl (IllegalStreamOperation
       ''Stream doesn't contain enough elements to perform operation 'nth'.''),
       Stream_initializer_list [1, 2, 3, 4, 5]) \<and>
   Stream_nth (InfiniteGenerator_class (\<lambda>c :: nat. (c, Suc c))) (Stream_value_generator 0) 2 =
     Some (Inr 2, Stream_value_generator 0)"
proof -
  note a = Stream_value_generator_nth_max[of "\<lambda>c :: unit. (0 :: nat, c)" "()"]
  note b = Stream_nth_max_yields[OF Stream_container_yields[of "[1, 2, 3, 4, 5 :: int]"]]
  note c = Stream_nth_below_max_example[THEN conjunct2, THEN conjunct1]
  note d = Stream_nth_below_max_example[THEN conjunct2, THEN conjunct2, THEN conjunct2]
  have n: "(2 :: size_t) \<noteq> - 1" by simp
  have "unat (2 :: size_t) = Suc (Suc 0)" by simp
  then have v: "gen_values (\<lambda>c. (c, Suc c)) (0 :: nat) (Suc (unat (2 :: size_t))) = [0, 1, 2]"
    by (simp only: gen_values.simps prod.case) simp
  from Stream_value_generator_nth[OF n, of "\<lambda>c :: nat. (c, Suc c)" 0]
  have e: "Stream_nth (InfiniteGenerator_class (\<lambda>c :: nat. (c, Suc c)))
      (Stream_value_generator 0) 2 = Some (Inr 2, Stream_value_generator 0)"
    unfolding v by simp
  from a b c d e show ?thesis by (intro conjI)
qed

text \<open>
  Claim C5. On a Finite Stream whose generator, copied, yields the values \<open>xs\<close>,
  \<^verbatim>\<open>reduce\<close> throws \<^verbatim>\<open>IllegalStreamOperation\<close> ("... cannot be performed on empty stream.")
  when \<open>xs\<close> is empty, that is when the first call of the generator returns
  end-of-sequence; otherwise it returns the left fold of the accumulator over the remaining
  values, in the order they are produced, started from the identity function applied to
  the first value. On \<^verbatim>\<open>{1, 2, 3, 4, 5}\<close> with identity \<open>x \<mapsto> 10 x\<close> and accumulator
  \<open>(r, v) \<mapsto> r + 2 v\<close> the result is \<open>38\<close>.
\<close>

theorem C5_reduce:
  assumes "yields (call P) (copy_ctor P (generator s)) xs" and "Tag s = Finite"
  shows "(xs = [] \<longrightarrow>
            Stream_reduce P s identity accumulator =
              Some (Inl (IllegalStreamOperation
                ''Operation 'reduce' cannot be performed on empty stream.''), s)) \<and>
         (\<forall>x xs'. xs = x # xs' \<longrightarrow>
            Stream_reduce P s identity accumulator =
              Some (Inr (foldl accumulator (identity x) xs'), s)) \<and>
         Stream_reduce ContainerGenerator_class (Stream_initializer_list [1, 2, 3, 4, 5 :: int])
             (\<lambda>x. 10 * real_of_int x) (\<lambda>r v. r + 2 * real_of_int v) =
           Some (Inr 38, Stream_initializer_list [1, 2, 3, 4, 5])"
proof (intro conjI impI allI)
  assume "xs = []"
  with Stream_reduce_yields[OF assms, of identity accumulator]
  show "Stream_reduce P s identity accumulator =
      Some (Inl (IllegalStreamOperation
        ''Operation 'reduce' cannot be performed on empty stream.''), s)"
    by simp
next
  fix x xs' assume "xs = x # xs'"
  with Stream_reduce_yields[OF assms, of identity accumulator]
  show "Stream_reduce P s identity accumulator
      = Some (Inr (foldl accumulator (identity x) xs'), s)"
    by simp
next
  show "Stream_reduce ContainerGenerator_class (Stream_initializer_list [1, 2, 3, 4, 5 :: int])
             (\<lambda>x. 10 * real_of_int x) (\<lambda>r v. r + 2 * real_of_int v) =
           Some (Inr 38, Stream_initializer_list [1, 2, 3, 4, 5])"
    using Stream_reduce_yields[OF Stream_container_yields Stream_container_Tag(1),
        of "[1, 2, 3, 4, 5 :: int]" "\<lambda>x. 10 * real_of_int x" "\<lambda>r v. r + 2 * real_of_int v"]
    by simp
qed

theorem C5_reduce_witness:
  "yields (call ContainerGenerator_class)
     (copy_ctor ContainerGenerator_class (generator (Stream_initializer_list [3, 4 :: int])))
     [3, 4] \<and>
   Tag (Stream_initializer_list [3, 4 :: int]) = Finite \<and>
   Stream_reduce ContainerGenerator_class (Stream_initializer_list [3, 4 :: int])
       (\<lambda>x. 10 * x) (\<lambda>r v. r + 2 * v) = Some (Inr 38, Stream_initializer_list [3, 4]) \<and>
   yields (call ContainerGenerator_class)
     (copy_ctor ContainerGenerator_class (generator (Stream_initializer_list ([] :: int list))))
     [] \<and>
   Tag (Stream_initializer_list ([] :: int list)) = Finite \<and>
   Stream_reduce ContainerGenerator_class (Stream_initializer_list ([] :: int list))
       (\<lambda>x. 10 * x) (\<lambda>r v. r + 2 * v) =
     Some (Inl (IllegalStreamOperation
       ''Operation 'reduce' cannot be performed on empty stream.''), Stream_initializer_list []) \<and>
   yields (call PackGenerator_class)
     (copy_ctor PackGenerator_class (generator (Stream_pack 1 [2, 3 :: int]))) [1, 2, 3] \<and>
   Tag (Stream_pack 1 [2, 3 :: int]) = Finite \<and>
   Stream_reduce PackGenerator_class (Stream_pack 1 [2, 3 :: int])
       (\<lambda>x. 10 * x) (\<lambda>r v. r + 2 * v) = Some (Inr 20, Stream_pack 1 [2, 3])"
proof -
  note y1 = Stream_container_yields[of "[3, 4 :: int]"]
  note t1 = Stream_container_Tag(1)[of "[3, 4 :: int]"]
  note y2 = Stream_container_yields[of "[] :: int list"]
  note t2 = Stream_container_Tag(1)[of "[] :: int list"]
  note y3 = Stream_pack_copy_yields[of "1 :: int" "[2, 3]"]
  have t3: "Tag (Stream_pack 1 [2, 3 :: int]) = Finite" by (simp add: Stream_pack_def)
  from C5_reduce[OF y1 t1, of "\<lambda>x. 10 * x" "\<lambda>r v. r + 2 * v"]
  have a: "Stream_reduce ContainerGenerator_class (Stream_initializer_list [3, 4 :: int])
       (\<lambda>x. 10 * x) (\<lambda>r v. r + 2 * v) = Some (Inr 38, Stream_initializer_list [3, 4])"
    by simp
  from C5_reduce[OF y2 t2, of "\<lambda>x. 10 * x" "\<lambda>r v. r + 2 * v"]
  have b: "Stream_reduce ContainerGenerator_class (Stream_initializer_list ([] :: int list))
       (\<lambda>x. 10 * x) (\<lambda>r v. r + 2 * v) =
     Some (Inl (IllegalStreamOperation
       ''Operation 'reduce' cannot be performed on empty stream.''), Stream_initializer_list [])"
    by simp
  from C5_reduce[OF y3 t3, of "\<lambda>x. 10 * x" "\<lambda>r v. r + 2 * v"]
  have c: "Stream_reduce PackGenerator_class (Stream_pack 1 [2, 3 :: int])
       (\<lambda>x. 10 * x) (\<lambda>r v. r + 2 * v) = Some (Inr 20, Stream_pack 1 [2, 3])"
    by simp
  from y1 t1 a y2 t2 b y3 t3 c show ?thesis by (intro conjI)
qed

text \<open>
  Claim C6. On a Stream tagged Infinite the operators \<^verbatim>\<open>to_vector\<close>, \<^verbatim>\<open>sum\<close>, \<^verbatim>\<open>reduce\<close>
  and \<^verbatim>\<open>print_to\<close> are rejected by their \<^verbatim>\<open>static_assert\<close>, whatever the generator is and
  without any call of it; \<^verbatim>\<open>nth\<close> has no such assertion and is the one terminal
  operation that runs on an Infinite Stream: on the Stream of a value generator, \<^verbatim>\<open>nth(n)\<close>
  returns the generator's value number \<open>n\<close>.
\<close>

theorem C6_static_assert:
  assumes "Tag s = Infinite" and "Tag s2 = Infinite"
  shows "Stream_to_vector P s = Some (Inl (StaticAssertion
            ''Operation to_vector cannot be performed on infinite stream.''), s) \<and>
         Stream_sum P2 s2 = Some (Inl (StaticAssertion
            ''Operation sum cannot be performed on infinite stream.''), s2) \<and>
         Stream_reduce P s identity accumulator = Some (Inl (StaticAssertion
            ''Operation reduce cannot be performed on infinite stream.''), s) \<and>
         Stream_print_to P shw s os delimiter = Some (Inl (StaticAssertion
            ''Operation print_to cannot be performed on infinite stream.''), s) \<and>
         (\<forall>n msg s'. Stream_nth P s n \<noteq> Some (Inl (StaticAssertion msg), s')) \<and>
         Tag (Stream_value_generator c) = Infinite \<and>
         (\<forall>n. n \<noteq> - 1 \<longrightarrow>
            Stream_nth (InfiniteGenerator_class f) (Stream_value_generator c) n =
              Some (Inr (last (gen_values f c (Suc (unat n)))), Stream_value_generator c))"
  using assms
  by (simp add: Stream_to_vector_def Stream_sum_def Stream_reduce_def Stream_print_to_def
      Stream_nth_no_static_assertion Stream_value_generator_nth)
    (simp add: Stream_value_generator_def)

theorem C6_static_assert_witness:
  "Tag (Stream_value_generator (0 :: nat)) = Infinite \<and>
   Stream_to_vector (InfiniteGenerator_class (\<lambda>c. (c, Suc c))) (Stream_value_generator 0) =
     Some (Inl (StaticAssertion
       ''Operation to_vector cannot be performed on infinite stream.''), Stream_value_generator 0) \<and>
   Stream_sum (InfiniteGenerator_class (\<lambda>c. (c, Suc c))) (Stream_value_generator 0) =
     Some (Inl (StaticAssertion
       ''Operation sum cannot be performed on infinite stream.''), Stream_value_generator 0) \<and>
   Stream_nth (InfiniteGenerator_class (\<lambda>c. (c, Suc c))) (Stream_value_generator 0) 2 =
     Some (Inr 2, Stream_value_generator 0)"
proof -
  have t: "Tag (Stream_value_generator (0 :: nat)) = Infinite"
    by (simp add: Stream_value_generator_def)
  have n: "(2 :: size_t) \<noteq> - 1" by simp
  have "unat (2 :: size_t) = Suc (Suc 0)" by simp
  then have v: "gen_values (\<lambda>c. (c, Suc c)) (0 :: nat) (Suc (unat (2 :: size_t))) = [0, 1, 2]"
    by (simp only: gen_values.simps prod.case) simp
  note th = C6_static_assert[OF t t, of "InfiniteGenerator_class (\<lambda>c. (c, Suc c))"
      "InfiniteGenerator_class (\<lambda>c. (c, Suc c))" id "\<lambda>r v. r" "\<lambda>v. []" "[]" "[]" 0 "\<lambda>c. (c, Suc c)"]
  from th have a: "Stream_to_vector (InfiniteGenerator_class (\<lambda>c. (c, Suc c)))
      (Stream_value_generator (0 :: nat)) =
     Some (Inl (StaticAssertion
       ''Operation to_vector cannot be performed on infinite stream.''), Stream_value_generator 0)"
    by (rule conjunct1)
  from th have b: "Stream_sum (InfiniteGenerator_class (\<lambda>c. (c, Suc c)))
      (Stream_value_generator (0 :: nat)) =
     Some (Inl (StaticAssertion
       ''Operation sum cannot be performed on infinite stream.''), Stream_value_generator 0)"
    by (rule conjunct2[THEN conjunct1])
  from th have "\<forall>n. n \<noteq> - 1 \<longrightarrow>
      Stream_nth (InfiniteGenerator_class (\<lambda>c. (c, Suc c))) (Stream_value_generator (0 :: nat)) n =
        Some (Inr (last (gen_values (\<lambda>c. (c, Suc c)) 0 (Suc (unat n)))), Stream_value_generator 0)"
    by (elim conjE)
  with n have "Stream_nth (InfiniteGenerator_class (\<lambda>c. (c, Suc c)))
      (Stream_value_generator (0 :: nat)) 2 =
        Some (Inr (last (gen_values (\<lambda>c. (c, Suc c)) 0 (Suc (unat (2 :: size_t))))),
          Stream_value_generator 0)"
    by blast
  then have c: "Stream_nth (InfiniteGenerator_class (\<lambda>c. (c, Suc c)))
      (Stream_value_generator (0 :: nat)) 2 = Some (Inr 2, Stream_value_generator 0)"
    unfolding v by simp
  from t a b c show ?thesis by (intro conjI)
qed

text \<open>
  Claim C7. The Stream of the literal pack \<^verbatim>\<open>(1, 2, 3, 4, 5)\<close> is a Finite sequence of
  five elements, yet \<^verbatim>\<open>group(3)\<close> followed by \<^verbatim>\<open>to_vector\<close> has no defined result on it:
  the group generator holds a move-constructed PackGenerator, and its first call of that
  parent dereferences \<^verbatim>\<open>crend()\<close>. On the Stream of the initializer list
  \<^verbatim>\<open>{1, 2, 3, 4, 5}\<close> the same operations return \<open>[[1, 2, 3], [4, 5]]\<close>, as
  \<open>Stream_group_to_vector\<close> says of every finite generator.
\<close>

theorem C7_group_pack:
  "Stream_to_vector PackGenerator_class (Stream_pack 1 [2, 3, 4, 5 :: int]) =
     Some (Inr [1, 2, 3, 4, 5], Stream_pack 1 [2, 3, 4, 5]) \<and>
   Stream_to_vector (GroupGenerator_class PackGenerator_class)
     (Stream_group PackGenerator_class (Stream_pack 1 [2, 3, 4, 5 :: int]) 3) = None \<and>
   Stream_to_vector (GroupGenerator_class ContainerGenerator_class)
       (Stream_group ContainerGenerator_class (Stream_initializer_list [1, 2, 3, 4, 5 :: int]) 3) =
     Some (Inr [[1, 2, 3], [4, 5]],
       Stream_group ContainerGenerator_class (Stream_initializer_list [1, 2, 3, 4, 5]) 3)"
proof -
  have n: "(3 :: size_t) \<noteq> 0" by simp
  have l: "group_list (unat (3 :: size_t)) [1, 2, 3, 4, 5 :: int] = [[1, 2, 3], [4, 5]]"
    by (simp add: group_list_Cons group_len_def)
  from Stream_group_to_vector[OF ContainerGenerator_finite_generator
      Stream_container_Tag(1)[of "[1, 2, 3, 4, 5 :: int]"] n, THEN conjunct1]
  have a: "Stream_to_vector (GroupGenerator_class ContainerGenerator_class)
       (Stream_group ContainerGenerator_class (Stream_initializer_list [1, 2, 3, 4, 5 :: int]) 3) =
     Some (Inr [[1, 2, 3], [4, 5]],
       Stream_group ContainerGenerator_class (Stream_initializer_list [1, 2, 3, 4, 5]) 3)"
    by (simp only: Stream_container_content l)
  from Stream_pack_to_vector[of "1 :: int" "[2, 3, 4, 5]"]
    Stream_group_pack_undefined[of "1 :: int" "[2, 3, 4, 5]" 3] a
  show ?thesis by (intro conjI)
qed

text \<open>
  Claim C8. The Stream of the literal pack \<^verbatim>\<open>(1, 2, 3)\<close> is a Finite sequence of three
  elements, yet \<^verbatim>\<open>skip(1)\<close> followed by \<^verbatim>\<open>to_vector\<close> has no defined result on it: the skip
  generator holds a move-constructed PackGenerator, and the first call of that parent, in
  the skipping loop, dereferences \<^verbatim>\<open>crend()\<close>. On the Stream of the initializer list
  \<^verbatim>\<open>{1, 2, 3}\<close> the same operations return \<open>[2, 3]\<close>, as \<open>Stream_skip_to_vector\<close> says of
  every finite generator.
\<close>

theorem C8_skip_pack:
  "Stream_to_vector PackGenerator_class (Stream_pack 1 [2, 3 :: int]) =
     Some (Inr [1, 2, 3], Stream_pack 1 [2, 3]) \<and>
   Stream_to_vector (SkipGenerator_class PackGenerator_class)
     (Stream_skip PackGenerator_class (Stream_pack 1 [2, 3 :: int]) 1) = None \<and>
   Stream_to_vector (SkipGenerator_class ContainerGenerator_class)
       (Stream_skip ContainerGenerator_class (Stream_initializer_list [1, 2, 3 :: int]) 1) =
     Some (Inr [2, 3],
       Stream_skip ContainerGenerator_class (Stream_initializer_list [1, 2, 3]) 1)"
proof -
  from Stream_skip_to_vector[OF ContainerGenerator_finite_generator
      Stream_container_Tag(1)[of "[1, 2, 3 :: int]"], of 1, THEN conjunct1]
  have a: "Stream_to_vector (SkipGenerator_class ContainerGenerator_class)
       (Stream_skip ContainerGenerator_class (Stream_initializer_list [1, 2, 3 :: int]) 1) =
     Some (Inr [2, 3],
       Stream_skip ContainerGenerator_class (Stream_initializer_list [1, 2, 3]) 1)"
    by (simp add: Stream_container_content)
  from Stream_pack_to_vector[of "1 :: int" "[2, 3]"]
    Stream_skip_pack_undefined[of "1 :: int" "[2, 3]" 1] a
  show ?thesis by (intro conjI)
qed

text \<open>
  Claim C9. For the Infinite Stream of a value generator \<open>f\<close> with initial state \<open>c\<close> and
  every \<open>k\<close>, \<^verbatim>\<open>get(k)\<close> followed by \<^verbatim>\<open>to_vector\<close> returns the first \<open>k\<close> values of the
  generator, in order: exactly \<open>k\<close> elements. A call of the get generator returns
  end-of-sequence, with no call of the parent, once \<^verbatim>\<open>amount_got_\<close> has reached
  \<^verbatim>\<open>amount_to_get_\<close>; before that it is one call of the parent, whose result it returns as
  it is (end-of-sequence too), with \<^verbatim>\<open>amount_got_\<close> incremented.
\<close>

theorem C9_get_infinite:
  "Stream_to_vector (GetGenerator_class (InfiniteGenerator_class f))
       (Stream_get (InfiniteGenerator_class f) (Stream_value_generator c) k) =
     Some (Inr (gen_values f c (unat k)),
       Stream_get (InfiniteGenerator_class f) (Stream_value_generator c) k) \<and>
   length (gen_values f c (unat k)) = unat k \<and>
   (\<forall>parent g. amount_to_get g \<le> amount_got g \<longrightarrow>
      GetGenerator_call parent g = Some (None, g)) \<and>
   (\<forall>parent g opt p'. amount_got g < amount_to_get g \<longrightarrow>
      parent (get_parent_gen g) = Some (opt, p') \<longrightarrow>
      GetGenerator_call parent g =
        Some (opt, g\<lparr>get_parent_gen := p', amount_got := amount_got g + 1\<rparr>))"
proof -
  note fin = GetGenerator_InfiniteGenerator_finite_generator[of f]
  have tag: "Tag (Stream_get (InfiniteGenerator_class f) (Stream_value_generator c) k) = Finite"
    by (simp add: Stream_get_def Stream_private_def)
  have c: "get_infinite_content f
      (generator (Stream_get (InfiniteGenerator_class f) (Stream_value_generator c) k))
      = gen_values f c (unat k)"
    by (simp add: Stream_get_def Stream_private_def GetGenerator_ctor_def GetGenerator_class_def
        InfiniteGenerator_class_def Stream_value_generator_def get_infinite_content_def)
  from Stream_to_vector_finite[OF fin tag]
  have 1: "Stream_to_vector (GetGenerator_class (InfiniteGenerator_class f))
       (Stream_get (InfiniteGenerator_class f) (Stream_value_generator c) k) =
     Some (Inr (gen_values f c (unat k)),
       Stream_get (InfiniteGenerator_class f) (Stream_value_generator c) k)"
    by (simp only: c)
  have 2: "\<forall>parent g. amount_to_get g \<le> amount_got g \<longrightarrow>
      GetGenerator_call parent g = Some (None, g)"
    by (simp add: GetGenerator_call_done)
  have 3: "\<forall>parent g opt p'. amount_got g < amount_to_get g \<longrightarrow>
      parent (get_parent_gen g) = Some (opt, p') \<longrightarrow>
      GetGenerator_call parent g =
        Some (opt, g\<lparr>get_parent_gen := p', amount_got := amount_got g + 1\<rparr>)"
    by (simp add: GetGenerator_call_delegates)
  from 1 2 3 show ?thesis by (simp add: length_gen_values)
qed

theorem C9_get_infinite_witness:
  "Stream_to_vector (GetGenerator_class (InfiniteGenerator_class (\<lambda>c :: unit. (1 :: int, c))))
       (Stream_get (InfiniteGenerator_class (\<lambda>c :: unit. (1 :: int, c))) (Stream_value_generator ()) 5) =
     Some (Inr [1, 1, 1, 1, 1],
       Stream_get (InfiniteGenerator_class (\<lambda>c :: unit. (1 :: int, c))) (Stream_value_generator ()) 5) \<and>
   Stream_to_vector (GetGenerator_class (InfiniteGenerator_class (\<lambda>c :: nat. (c, Suc c))))
       (Stream_get (InfiniteGenerator_class (\<lambda>c :: nat. (c, Suc c))) (Stream_value_generator 0) 0) =
     Some (Inr [],
       Stream_get (InfiniteGenerator_class (\<lambda>c :: nat. (c, Suc c))) (Stream_value_generator 0) 0)"
proof -
  have u: "unat (5 :: size_t) = Suc (Suc (Suc (Suc (Suc 0))))" by simp
  from C9_get_infinite[of "\<lambda>c :: unit. (1 :: int, c)" "()" 5, THEN conjunct1]
  have a: "Stream_to_vector (GetGenerator_class (InfiniteGenerator_class (\<lambda>c :: unit. (1 :: int, c))))
       (Stream_get (InfiniteGenerator_class (\<lambda>c :: unit. (1 :: int, c))) (Stream_value_generator ()) 5) =
     Some (Inr [1, 1, 1, 1, 1],
       Stream_get (InfiniteGenerator_class (\<lambda>c :: unit. (1 :: int, c))) (Stream_value_generator ()) 5)"
    unfolding u by simp
  from C9_get_infinite[of "\<lambda>c :: nat. (c, Suc c)" 0 0, THEN conjunct1]
  have b: "Stream_to_vector (GetGenerator_class (InfiniteGenerator_class (\<lambda>c :: nat. (c, Suc c))))
       (Stream_get (InfiniteGenerator_class (\<lambda>c :: nat. (c, Suc c))) (Stream_value_generator 0) 0) =
     Some (Inr [],
       Stream_get (InfiniteGenerator_class (\<lambda>c :: nat. (c, Suc c))) (Stream_value_generator 0) 0)"
    by simp
  from a b show ?thesis by (intro conjI)
qed

text \<open>
  Claim C10. The Stream of the literal pack \<^verbatim>\<open>(1, 2, 3)\<close> is a Finite sequence of three
  elements, yet \<^verbatim>\<open>get(2)\<close> followed by \<^verbatim>\<open>to_vector\<close> has no defined result on it: the get
  generator holds a move-constructed PackGenerator, and its first call of that parent
  dereferences \<^verbatim>\<open>crend()\<close>. On the Stream of the initializer list \<^verbatim>\<open>{1, 2, 3}\<close> the same
  operations return \<open>[1, 2]\<close>, and with \<^verbatim>\<open>get(9)\<close> all of \<open>[1, 2, 3]\<close>, as
  \<open>Stream_get_to_vector\<close> says of every finite generator.
\<close>

theorem C10_get_pack:
  "Stream_to_vector PackGenerator_class (Stream_pack 1 [2, 3 :: int]) =
     Some (Inr [1, 2, 3], Stream_pack 1 [2, 3]) \<and>
   Stream_to_vector (GetGenerator_class PackGenerator_class)
     (Stream_get PackGenerator_class (Stream_pack 1 [2, 3 :: int]) 2) = None \<and>
   Stream_to_vector (GetGenerator_class ContainerGenerator_class)
       (Stream_get ContainerGenerator_class (Stream_initializer_list [1, 2, 3 :: int]) 2) =
     Some (Inr [1, 2],
       Stream_get ContainerGenerator_class (Stream_initializer_list [1, 2, 3]) 2) \<and>
   Stream_to_vector (GetGenerator_class ContainerGenerator_class)
       (Stream_get ContainerGenerator_class (Stream_initializer_list [1, 2, 3 :: int]) 9) =
     Some (Inr [1, 2, 3],
       Stream_get ContainerGenerator_class (Stream_initializer_list [1, 2, 3]) 9)"
proof -
  have n: "(2 :: size_t) \<noteq> 0" by simp
  from Stream_get_to_vector[OF ContainerGenerator_finite_generator,
      of "Stream_initializer_list [1, 2, 3 :: int]" 2, THEN conjunct1]
  have a: "Stream_to_vector (GetGenerator_class ContainerGenerator_class)
       (Stream_get ContainerGenerator_class (Stream_initializer_list [1, 2, 3 :: int]) 2) =
     Some (Inr [1, 2],
       Stream_get ContainerGenerator_class (Stream_initializer_list [1, 2, 3]) 2)"
    by (simp add: Stream_container_content)
  from Stream_get_to_vector[OF ContainerGenerator_finite_generator,
      of "Stream_initializer_list [1, 2, 3 :: int]" 9, THEN conjunct1]
  have b: "Stream_to_vector (GetGenerator_class ContainerGenerator_class)
       (Stream_get ContainerGenerator_class (Stream_initializer_list [1, 2, 3 :: int]) 9) =
     Some (Inr [1, 2, 3],
       Stream_get ContainerGenerator_class (Stream_initializer_list [1, 2, 3]) 9)"
    by (simp add: Stream_container_content)
  from Stream_pack_to_vector[of "1 :: int" "[2, 3]"]
    Stream_get_pack_undefined[OF n, of "1 :: int" "[2, 3]"] a b
  show ?thesis by (intro conjI)
qed

end
